theory Spec2Isabelle
  imports Complex_Main "HOL-Library.Log_Nat"
begin

text \<open>
  A model of the practice screen, the leaderboard rank and the dashboard suggestion of the
  application. Each handler of a component is one atomic step from the component state
  before it to the state after it, together with the requests it issues; what the hosted
  backend answers is an input of the step.
\<close>

section \<open>Data model (types.ts)\<close>

text \<open>
  The records follow the interfaces of the repository. A JavaScript number that only
  ever holds a count is a \<open>nat\<close>; a database \<open>INT\<close> column is an \<open>int\<close>.
\<close>

record Question =
  question :: string
  options :: "string list"
  correctAnswer :: string
  explanation :: string

record Profile =
  id_p :: string
  username :: "string option"
  avatar_url :: "string option"
  score :: int

section \<open>The practice screen (components/Practice.tsx)\<close>

datatype TestState = NotStarted | Loading | InProgress | Completed

text \<open>
  The \<open>answers\<close> array is declared \<open>string[]\<close> but is filled with \<open>null\<close> by
  \<open>startTest\<close>. A write past the end of a JavaScript array leaves empty slots behind it,
  and spreading an array turns its empty slots into \<open>undefined\<close>; so a slot of the array
  is one of four things.
\<close>

datatype slot = Hole | Undefined | Null | Chosen string

record practice =
  testState :: TestState
  questions :: "Question list"
  currentQuestionIndex :: nat
  answers :: "slot list"
  showExplanation :: bool
  timeLeft :: int
  saveError :: "string option"
  profile :: "Profile option"

text \<open>
  What a handler reads from outside the component state: the topic selected by the route
  (its \<open>name\<close>; none when the route has no known topic key), the signed-in user (its
  \<open>id\<close>), and how the hosted backend answers the two requests of \<open>handleCompletion\<close>.
  \<open>Failed m\<close> is a request that comes back with an error, or is rejected, with message \<open>m\<close>.
\<close>

datatype outcome = Succeeded | Failed string

record env =
  selectedTopic :: "string option"
  user :: "string option"
  insertOutcome :: outcome
  rpcOutcome :: outcome

text \<open>Requests and navigation a handler issues, in the order it issues them.\<close>

datatype effect =
    InsertTestResult string string nat nat
  | IncrementUserScore nat
  | Alert string
  | Navigate string

subsection \<open>Array primitives\<close>

text \<open>
  \<open>Array.prototype.filter\<close> visits the indices \<open>0 .. length - 1\<close> in order, skips empty
  slots and hands the callback the element and its index; only the length of its result
  is used by the component.
\<close>

definition filter_length :: "(slot \<Rightarrow> nat \<Rightarrow> bool) \<Rightarrow> slot list \<Rightarrow> nat" where
  "filter_length cb xs =
     length (filter (\<lambda>i. xs ! i \<noteq> Hole \<and> cb (xs ! i) i) [0..<length xs])"

text \<open>\<open>[...answers]\<close>: the copy has \<open>undefined\<close> where the source has an empty slot.\<close>

definition spread :: "slot list \<Rightarrow> slot list" where
  "spread xs = map (\<lambda>a. if a = Hole then Undefined else a) xs"

text \<open>\<open>xs[i] = v\<close>: in range it overwrites, out of range it extends the array.\<close>

definition assign_index :: "slot list \<Rightarrow> nat \<Rightarrow> slot \<Rightarrow> slot list" where
  "assign_index xs i v =
     (if i < length xs then xs[i := v]
      else xs @ replicate (i - length xs) Hole @ [v])"

subsection \<open>Score\<close>

text \<open>
  Line 67: \<open>answers.filter((ans, i) => questions[i] && ans === questions[i].correctAnswer).length\<close>.
  \<open>questions[i]\<close> is an object, hence truthy, exactly when \<open>i\<close> is in range; \<open>===\<close> between
  a slot and a string holds only for a chosen string equal to it.
\<close>

definition is_correct :: "Question list \<Rightarrow> slot \<Rightarrow> nat \<Rightarrow> bool" where
  "is_correct qs ans i = (i < length qs \<and> ans = Chosen (correctAnswer (qs ! i)))"

definition correctCount :: "Question list \<Rightarrow> slot list \<Rightarrow> nat" where
  "correctCount qs as = filter_length (is_correct qs) as"

subsection \<open>handleCompletion\<close>

text \<open>
  The body of the \<open>try\<close> block. \<open>Inl m\<close> is an exception with message \<open>m\<close> leaving the
  block: the error returned by the backend and rethrown by \<open>throw insertError\<close> or
  \<open>throw rpcError\<close>. The second component lists the requests made up to that point.
  \<open>handleCompletion\<close> catches the exception and stores its message in \<open>saveError\<close>;
  nothing outside the \<open>try\<close> block can throw.
\<close>

definition save_performance ::
  "env \<Rightarrow> string \<Rightarrow> string \<Rightarrow> nat \<Rightarrow> practice \<Rightarrow> (string + practice) \<times> effect list" where
  "save_performance e uid topic sc s =
     (let ins = InsertTestResult uid topic sc (length (questions s)) in
      case insertOutcome e of
        Failed m \<Rightarrow> (Inl m, [ins])
      | Succeeded \<Rightarrow>
          (let pointsEarned = sc * 100 in
           if pointsEarned > 0 then
             (case rpcOutcome e of
                Failed m \<Rightarrow> (Inl m, [ins, IncrementUserScore pointsEarned])
              | Succeeded \<Rightarrow>
                  (Inr (s\<lparr>profile :=
                          map_option (\<lambda>prev. prev\<lparr>score := score prev + int pointsEarned\<rparr>)
                            (profile s)\<rparr>),
                   [ins, IncrementUserScore pointsEarned]))
           else (Inr s, [ins])))"

definition handleCompletion :: "env \<Rightarrow> practice \<Rightarrow> practice \<times> effect list" where
  "handleCompletion e s =
     (if testState s = Completed then (s, [])
      else
        (let s1 = s\<lparr>testState := Completed\<rparr>;
             sc = correctCount (questions s) (answers s);
             s2 = s1\<lparr>saveError := None\<rparr>
         in case (selectedTopic e, user e) of
              (Some topic, Some uid) \<Rightarrow>
                (case save_performance e uid topic sc s2 of
                   (Inl m, fx) \<Rightarrow> (s2\<lparr>saveError := Some m\<rparr>, fx)
                 | (Inr s3, fx) \<Rightarrow> (s3, fx))
            | _ \<Rightarrow> (s2, [])))"

subsection \<open>startTest, handleAnswer, goToNextQuestion, resetTest\<close>

text \<open>
  \<open>startTest\<close> awaits the question service, so it runs in two parts: what it does before
  the \<open>await\<close>, and what it does with the fetched list.
\<close>

definition startTest_begin :: "practice \<Rightarrow> practice" where
  "startTest_begin s = s\<lparr>testState := Loading, saveError := None\<rparr>"

definition startTest_resume :: "Question list \<Rightarrow> practice \<Rightarrow> practice \<times> effect list" where
  "startTest_resume fetchedQuestions s =
     (if length fetchedQuestions > 0 then
        (s\<lparr>questions := fetchedQuestions,
           answers := replicate (length fetchedQuestions) Null,
           currentQuestionIndex := 0,
           showExplanation := False,
           timeLeft := 300,
           testState := InProgress\<rparr>, [])
      else
        (s\<lparr>testState := NotStarted\<rparr>,
         [Alert ''Could not load questions. Please try again.'', Navigate ''/practice'']))"

definition handleAnswer :: "string \<Rightarrow> practice \<Rightarrow> practice" where
  "handleAnswer option s =
     (let newAnswers = assign_index (spread (answers s)) (currentQuestionIndex s) (Chosen option)
      in s\<lparr>answers := newAnswers, showExplanation := True\<rparr>)"

definition goToNextQuestion :: "env \<Rightarrow> practice \<Rightarrow> practice \<times> effect list" where
  "goToNextQuestion e s =
     (let s1 = s\<lparr>showExplanation := False\<rparr> in
      if int (currentQuestionIndex s) < int (length (questions s)) - 1
      then (s1\<lparr>currentQuestionIndex := currentQuestionIndex s + 1\<rparr>, [])
      else handleCompletion e s1)"


subsection \<open>The timer effect\<close>

text \<open>
  The effect on \<open>[timeLeft, testState]\<close> schedules a one-second timeout while the test is
  in progress with time left, and completes the test when the time is up. \<open>tick\<close> is the
  timeout firing, followed by the effect running again on the new \<open>timeLeft\<close>.
\<close>

definition timeEffect :: "env \<Rightarrow> practice \<Rightarrow> practice \<times> effect list" where
  "timeEffect e s =
     (if testState s = InProgress \<and> timeLeft s > 0 then (s, [])
      else if timeLeft s = 0 \<and> testState s = InProgress then handleCompletion e s
      else (s, []))"

definition tick :: "env \<Rightarrow> practice \<Rightarrow> practice \<times> effect list" where
  "tick e s =
     (if testState s = InProgress \<and> timeLeft s > 0
      then timeEffect e (s\<lparr>timeLeft := timeLeft s - 1\<rparr>)
      else (s, []))"

subsection \<open>Handlers as closures of a render\<close>

text \<open>
  A handler is a closure of the render that created it: \<open>testState\<close>, \<open>questions\<close>,
  \<open>answers\<close>, \<open>currentQuestionIndex\<close> and \<open>timeLeft\<close> are constants of that render
  (line 34 and following), and a setter does not change them. In the functions below \<open>r\<close> is
  the state the render saw, which the handler reads, and \<open>s\<close> is the state of the component
  when the handler runs, which the setters change; \<open>setProfile\<close> is given a function of the
  previous value and so acts on \<open>s\<close>. The handlers above are these with \<open>r = s\<close>: the call
  comes from the latest render.
\<close>

definition save_performance_from ::
  "env \<Rightarrow> string \<Rightarrow> string \<Rightarrow> nat \<Rightarrow> practice \<Rightarrow> practice \<Rightarrow> (string + practice) \<times> effect list" where
  "save_performance_from e uid topic sc r s =
     (let ins = InsertTestResult uid topic sc (length (questions r)) in
      case insertOutcome e of
        Failed m \<Rightarrow> (Inl m, [ins])
      | Succeeded \<Rightarrow>
          (let pointsEarned = sc * 100 in
           if pointsEarned > 0 then
             (case rpcOutcome e of
                Failed m \<Rightarrow> (Inl m, [ins, IncrementUserScore pointsEarned])
              | Succeeded \<Rightarrow>
                  (Inr (s\<lparr>profile :=
                          map_option (\<lambda>prev. prev\<lparr>score := score prev + int pointsEarned\<rparr>)
                            (profile s)\<rparr>),
                   [ins, IncrementUserScore pointsEarned]))
           else (Inr s, [ins])))"

definition handleCompletion_from :: "env \<Rightarrow> practice \<Rightarrow> practice \<Rightarrow> practice \<times> effect list" where
  "handleCompletion_from e r s =
     (if testState r = Completed then (s, [])
      else
        (let s1 = s\<lparr>testState := Completed\<rparr>;
             sc = correctCount (questions r) (answers r);
             s2 = s1\<lparr>saveError := None\<rparr>
         in case (selectedTopic e, user e) of
              (Some topic, Some uid) \<Rightarrow>
                (case save_performance_from e uid topic sc r s2 of
                   (Inl m, fx) \<Rightarrow> (s2\<lparr>saveError := Some m\<rparr>, fx)
                 | (Inr s3, fx) \<Rightarrow> (s3, fx))
            | _ \<Rightarrow> (s2, [])))"

definition goToNextQuestion_from :: "env \<Rightarrow> practice \<Rightarrow> practice \<Rightarrow> practice \<times> effect list" where
  "goToNextQuestion_from e r s =
     (let s1 = s\<lparr>showExplanation := False\<rparr> in
      if int (currentQuestionIndex r) < int (length (questions r)) - 1
      then (s1\<lparr>currentQuestionIndex := currentQuestionIndex r + 1\<rparr>, [])
      else handleCompletion_from e r s1)"

definition timeEffect_from :: "env \<Rightarrow> practice \<Rightarrow> practice \<Rightarrow> practice \<times> effect list" where
  "timeEffect_from e r s =
     (if testState r = InProgress \<and> timeLeft r > 0 then (s, [])
      else if timeLeft r = 0 \<and> testState r = InProgress then handleCompletion_from e r s
      else (s, []))"

subsection \<open>The rendered view\<close>

text \<open>
  What the component returns, reduced to what the claims observe: which screen is shown,
  the numbers on the completed screen, and which controls the question screen offers.
  The completed screen shows either the remediation panel or the XP line, never both.
  In \<open>saveError ? ... : ...\<close> both \<open>null\<close> and the empty string are falsy.
  A \<open>TypeError\<close> is a read of a property of \<open>undefined\<close> during rendering.
\<close>

datatype render_error = TypeError

datatype panel = DatabaseSetupInstructions string string | XpEarned nat

datatype view =
    TopicSelection
  | Spinner
  | CompletedView nat nat panel
  | QuestionView Question bool bool
  | NullView

text \<open>
  Line 157: \<open>answers.filter((ans, i) => ans === questions[i].correctAnswer).length\<close>, without
  the \<open>questions[i] &&\<close> guard of line 67: a visited index past the end of \<open>questions\<close>
  reads \<open>correctAnswer\<close> of \<open>undefined\<close>.
\<close>

definition render_score :: "Question list \<Rightarrow> slot list \<Rightarrow> render_error + nat" where
  "render_score qs as =
     (if list_ex (\<lambda>i. as ! i \<noteq> Hole \<and> length qs \<le> i) [0..<length as] then Inl TypeError
      else Inr (filter_length (\<lambda>ans i. ans = Chosen (correctAnswer (qs ! i))) as))"

definition render :: "env \<Rightarrow> practice \<Rightarrow> render_error + view" where
  "render e s =
     (if selectedTopic e = None then Inr TopicSelection
      else if testState s = Loading then Inr Spinner
      else if testState s = Completed then
        (case render_score (questions s) (answers s) of
           Inl err \<Rightarrow> Inl err
         | Inr sc \<Rightarrow>
             Inr (CompletedView sc (length (questions s))
                   (case saveError s of
                      None \<Rightarrow> XpEarned (sc * 100)
                    | Some m \<Rightarrow>
                        if m = [] then XpEarned (sc * 100)
                        else DatabaseSetupInstructions ''weekly_progress'' m)))
      else if testState s = InProgress \<and> length (questions s) > 0 then
        (if currentQuestionIndex s < length (questions s)
         then Inr (QuestionView (questions s ! currentQuestionIndex s)
                     (\<not> showExplanation s) (showExplanation s))
         else Inl TypeError)
      else Inr NullView)"


subsection \<open>Operations of a running session\<close>

text \<open>
  Everything that can happen between the start of a test and \<open>resetTest\<close>, each with
  the environment it happens in.
\<close>

datatype operation = SubmitAnswer string | Advance | Complete | Tick

fun perform :: "env \<Rightarrow> practice \<Rightarrow> operation \<Rightarrow> practice \<times> effect list" where
  "perform e s (SubmitAnswer option) = (handleAnswer option s, [])"
| "perform e s Advance = goToNextQuestion e s"
| "perform e s Complete = handleCompletion e s"
| "perform e s Tick = tick e s"

fun run :: "practice \<Rightarrow> (env \<times> operation) list \<Rightarrow> practice" where
  "run s [] = s"
| "run s ((e, op) # ops) = run (fst (perform e s op)) ops"

definition session_inv :: "practice \<Rightarrow> bool" where
  "session_inv s =
     ((testState s = InProgress \<or> testState s = Completed) \<and>
      length (answers s) = length (questions s) \<and>
      currentQuestionIndex s < length (questions s))"

section \<open>The leaderboard (components/Leaderboard.tsx)\<close>

text \<open>
  The component is the second part of \<open>src/unnamed/part_003\<close>; line numbers are those of
  that file.
\<close>

subsection \<open>The count request\<close>

text \<open>
  The request assembled at lines 156-159:
  \<open>from('profiles').select('*', { count: 'exact', head: true }).gt('score', profile.score)\<close>.
  The filter methods of the query builder name the comparison.
\<close>

datatype comparison = Eq | Neq | Gt | Gte | Lt | Lte

record count_request =
  from_table :: string
  select_columns :: string
  count_kind :: string
  head_only :: bool
  filter_column :: string
  filter_operator :: comparison
  filter_value :: int

definition rank_request :: "Profile \<Rightarrow> count_request" where
  "rank_request p =
     \<lparr>from_table = ''profiles'', select_columns = ''*'', count_kind = ''exact'', head_only = True,
      filter_column = ''score'', filter_operator = Gt, filter_value = score p\<rparr>"

text \<open>The reply \<open>{ count, error }\<close>.\<close>

record count_reply =
  count :: "nat option"
  rankError :: "string option"

text \<open>
  Modelled from the spec: the hosted backend, which the specification lists among the
  external collaborators (relational table storage and querying, consumed as an opaque
  request/response service), is not in the repository. \<open>exact_count\<close> is the reply of a
  backend that holds the given rows of \<open>profiles\<close>: for an exact count on the \<open>score\<close>
  column, the number of rows whose score stands in the requested comparison to the
  requested value; for any other request, an error.
\<close>

fun compares :: "comparison \<Rightarrow> int \<Rightarrow> int \<Rightarrow> bool" where
  "compares Eq a b = (a = b)"
| "compares Neq a b = (a \<noteq> b)"
| "compares Gt a b = (a > b)"
| "compares Gte a b = (a \<ge> b)"
| "compares Lt a b = (a < b)"
| "compares Lte a b = (a \<le> b)"

definition exact_count :: "Profile list \<Rightarrow> count_request \<Rightarrow> count_reply" where
  "exact_count table q =
     (if from_table q = ''profiles'' \<and> filter_column q = ''score'' \<and> count_kind q = ''exact''
      then \<lparr>count = Some (length (filter (\<lambda>p. compares (filter_operator q) (score p) (filter_value q)) table)),
            rankError = None\<rparr>
      else \<lparr>count = None, rankError = Some ''bad request''\<rparr>)"

subsection \<open>fetchLeaderboardData\<close>

text \<open>
  Lines 154-166: the new value of the \<open>userRank\<close> state, given the backend as a function
  from the request to its reply.
\<close>

definition fetchUserRank ::
  "(count_request \<Rightarrow> count_reply) \<Rightarrow> Profile option \<Rightarrow> nat option \<Rightarrow> nat option" where
  "fetchUserRank backend prof userRank =
     (case prof of
        None \<Rightarrow> userRank
      | Some p \<Rightarrow>
          (let r = backend (rank_request p) in
           case rankError r of
             Some m \<Rightarrow> userRank
           | None \<Rightarrow> Some ((case count r of None \<Rightarrow> 0 | Some c \<Rightarrow> c) + 1)))"

text \<open>
  \<open>LeaderboardUser\<close> is a profile with its rank in the list. Line 150:
  \<open>data.map((p, index) => ({ ...p, rank: index + 1 }))\<close>.
\<close>

record LeaderboardUser =
  player :: Profile
  rank :: nat

definition rankedData :: "Profile list \<Rightarrow> LeaderboardUser list" where
  "rankedData data = map (\<lambda>index. \<lparr>player = data ! index, rank = index + 1\<rparr>) [0..<length data]"

record leaderboard_state =
  leaderboard :: "LeaderboardUser list"
  userRank_of :: "nat option"
  loading :: bool
  fetchError :: "string option"

text \<open>
  The reply \<open>{ data, error }\<close> to the request for the ten profiles of highest score
  (lines 137-141) is an input of \<open>fetchLeaderboardData\<close>.
\<close>

record top_reply =
  data :: "Profile list option"
  error :: "string option"

definition fetchLeaderboardData ::
  "top_reply \<Rightarrow> (count_request \<Rightarrow> count_reply) \<Rightarrow> Profile option \<Rightarrow> leaderboard_state \<Rightarrow> leaderboard_state" where
  "fetchLeaderboardData reply backend prof st =
     (let st1 = st\<lparr>fetchError := None\<rparr> in
      case error reply of
        Some m \<Rightarrow> st1\<lparr>fetchError := Some m\<rparr>
      | None \<Rightarrow>
          (let st2 = (case data reply of
                        None \<Rightarrow> st1
                      | Some d \<Rightarrow> st1\<lparr>leaderboard := rankedData d\<rparr>)
           in st2\<lparr>userRank_of := fetchUserRank backend prof (userRank_of st2)\<rparr>))"

text \<open>
  Lines 169-173: the fetch on mount, between \<open>setLoading(true)\<close> and
  \<open>setLoading(false)\<close>. The subscription to changes of \<open>profiles\<close> calls
  \<open>fetchLeaderboardData\<close> alone.
\<close>

definition performInitialFetch ::
  "top_reply \<Rightarrow> (count_request \<Rightarrow> count_reply) \<Rightarrow> Profile option \<Rightarrow> leaderboard_state \<Rightarrow> leaderboard_state" where
  "performInitialFetch reply backend prof st =
     (fetchLeaderboardData reply backend prof (st\<lparr>loading := True\<rparr>))\<lparr>loading := False\<rparr>"

subsection \<open>The rendered list\<close>

text \<open>
  Lines 196-254. A row of the list shows \<open>player.rank\<close> and is highlighted when the player
  is the signed-in user; the separate row for the user shows \<open>userRank\<close> and is rendered
  under the condition \<open>!isUserInTop10 && profile && userRank\<close>.
\<close>

datatype board_row = PlayerRow nat string bool | YouRow nat

datatype board_view = BoardLoading | BoardError string | BoardEmpty | BoardRows "board_row list"

definition isUserInTop10 :: "LeaderboardUser list \<Rightarrow> string option \<Rightarrow> bool" where
  "isUserInTop10 lb uid = list_ex (\<lambda>p. Some (id_p (player p)) = uid) lb"

definition render_leaderboard :: "string option \<Rightarrow> Profile option \<Rightarrow> leaderboard_state \<Rightarrow> board_view" where
  "render_leaderboard uid prof st =
     (if loading st then BoardLoading
      else if (case fetchError st of None \<Rightarrow> False | Some m \<Rightarrow> m \<noteq> [])
        then BoardError (case fetchError st of None \<Rightarrow> [] | Some m \<Rightarrow> m)
      else if length (leaderboard st) = 0 then BoardEmpty
      else BoardRows
        (map (\<lambda>pl. PlayerRow (rank pl) (id_p (player pl)) (Some (id_p (player pl)) = uid))
           (leaderboard st) @
         (case (prof, userRank_of st) of
            (Some p, Some n) \<Rightarrow>
              if \<not> isUserInTop10 (leaderboard st) uid \<and> n \<noteq> 0 then [YouRow n] else []
          | _ \<Rightarrow> [])))"

text \<open>The ranks shown on the rows that stand for the signed-in user.\<close>

fun own_rank :: "board_row \<Rightarrow> nat option" where
  "own_rank (PlayerRow n i highlighted) = (if highlighted then Some n else None)"
| "own_rank (YouRow n) = Some n"

definition displayed_ranks :: "board_view \<Rightarrow> nat list" where
  "displayed_ranks v = (case v of BoardRows rows \<Rightarrow> List.map_filter own_rank rows | _ \<Rightarrow> [])"

section \<open>The dashboard suggestion (components/Dashboard.tsx)\<close>

record TestResult =
  id_r :: string
  created_at :: string
  topic :: string
  score_r :: int
  total_questions :: int
  user_id :: string

subsection \<open>JavaScript numbers\<close>

text \<open>
  A JavaScript number is an IEEE 754 binary64 value: not a number, an infinity, or a finite
  rational with a significand of 53 bits. The sign of a zero is not kept: it shows only
  in a division by zero, and a sum of integers is never the negative zero.
\<close>

datatype number = NaN | PosInfinity | NegInfinity | Finite rat

text \<open>\<open>exponent x\<close> is the integer \<open>e\<close> with \<open>2^e \<le> x < 2^(e+1)\<close>, for a positive \<open>x\<close>.\<close>

definition exponent :: "rat \<Rightarrow> int" where
  "exponent x =
     (let (p, q) = quotient_of x; e0 = bitlen p - bitlen q
      in if 2 powi e0 \<le> x then e0 else e0 - 1)"

text \<open>Rounding to the nearest integer, a tie going to the even one.\<close>

definition round_even :: "rat \<Rightarrow> int" where
  "round_even y =
     (let f = \<lfloor>y\<rfloor>; d = y - of_int f
      in if d < 1 / 2 then f else if 1 / 2 < d then f + 1 else if even f then f else f + 1)"

text \<open>
  The multiple of the spacing of the doubles around \<open>a\<close> that is nearest to \<open>a\<close>, for
  \<open>a \<ge> 0\<close>. The spacing is \<open>2^(e - 52)\<close> where \<open>e\<close> is the exponent of \<open>a\<close>, and
  \<open>2^(-1074)\<close> below the normal range.
\<close>

definition nearest :: "rat \<Rightarrow> rat" where
  "nearest a =
     (let q = 2 powi (max (exponent a) (- 1022) - 52)
      in of_int (round_even (a / q)) * q)"

text \<open>The double a real result is rounded to (round to nearest, ties to even).\<close>

definition round64 :: "rat \<Rightarrow> number" where
  "round64 x =
     (if x = 0 then Finite 0
      else
        (let v = nearest \<bar>x\<bar>
         in if 2 ^ 1024 \<le> v then (if 0 < x then PosInfinity else NegInfinity)
            else Finite (if 0 < x then v else - v)))"

text \<open>The number an integer of a database row arrives as.\<close>

definition number_of_int :: "int \<Rightarrow> number" where
  "number_of_int i = round64 (of_int i)"

fun add_n :: "number \<Rightarrow> number \<Rightarrow> number" where
  "add_n NaN y = NaN"
| "add_n x NaN = NaN"
| "add_n (Finite a) (Finite b) = round64 (a + b)"
| "add_n PosInfinity NegInfinity = NaN"
| "add_n NegInfinity PosInfinity = NaN"
| "add_n PosInfinity y = PosInfinity"
| "add_n NegInfinity y = NegInfinity"
| "add_n x PosInfinity = PosInfinity"
| "add_n x NegInfinity = NegInfinity"

fun divide_n :: "number \<Rightarrow> number \<Rightarrow> number" where
  "divide_n NaN y = NaN"
| "divide_n x NaN = NaN"
| "divide_n (Finite a) (Finite b) =
     (if b = 0 then (if a = 0 then NaN else if 0 < a then PosInfinity else NegInfinity)
      else round64 (a / b))"
| "divide_n (Finite a) y = Finite 0"
| "divide_n PosInfinity (Finite b) = (if b < 0 then NegInfinity else PosInfinity)"
| "divide_n NegInfinity (Finite b) = (if b < 0 then PosInfinity else NegInfinity)"
| "divide_n x y = NaN"

fun times_n :: "number \<Rightarrow> number \<Rightarrow> number" where
  "times_n NaN y = NaN"
| "times_n x NaN = NaN"
| "times_n (Finite a) (Finite b) = round64 (a * b)"
| "times_n (Finite a) PosInfinity = (if a = 0 then NaN else if 0 < a then PosInfinity else NegInfinity)"
| "times_n (Finite a) NegInfinity = (if a = 0 then NaN else if 0 < a then NegInfinity else PosInfinity)"
| "times_n PosInfinity (Finite b) = (if b = 0 then NaN else if 0 < b then PosInfinity else NegInfinity)"
| "times_n NegInfinity (Finite b) = (if b = 0 then NaN else if 0 < b then NegInfinity else PosInfinity)"
| "times_n PosInfinity PosInfinity = PosInfinity"
| "times_n NegInfinity NegInfinity = PosInfinity"
| "times_n x y = NegInfinity"

fun less_n :: "number \<Rightarrow> number \<Rightarrow> bool" where
  "less_n NaN y = False"
| "less_n x NaN = False"
| "less_n (Finite a) (Finite b) = (a < b)"
| "less_n (Finite a) PosInfinity = True"
| "less_n NegInfinity (Finite b) = True"
| "less_n NegInfinity PosInfinity = True"
| "less_n x y = False"

text \<open>
  \<open>(correct / total) * 100\<close> as a function of the exact quotient, where both operations
  stay finite.
\<close>

definition percent64 :: "rat \<Rightarrow> rat" where
  "percent64 a = nearest (nearest a * 100)"

subsection \<open>JavaScript objects\<close>

text \<open>
  \<open>topicPerformance\<close> is an object literal \<open>{}\<close>: its own properties in creation order,
  each holding \<open>{ correct, total }\<close>. A lookup \<open>topicPerformance[k]\<close> of a key that is a
  member of \<open>Object.prototype\<close> finds that member, which is truthy, so no own property
  is created for such a key and the two \<open>+=\<close> land on the inherited member; the loop
  over the keys then never computes an accuracy below \<open>lowestAccuracy\<close> for it.
\<close>

type_synonym performance = "(string \<times> number \<times> number) list"

definition object_prototype_keys :: "string list" where
  "object_prototype_keys =
     [''constructor'', ''__proto__'', ''hasOwnProperty'', ''isPrototypeOf'',
      ''propertyIsEnumerable'', ''toLocaleString'', ''toString'', ''valueOf'',
      ''__defineGetter__'', ''__defineSetter__'', ''__lookupGetter__'', ''__lookupSetter__'']"

text \<open>
  \<open>for (const topic in topicPerformance)\<close> visits the own keys that are array indices
  (canonical decimal numerals below \<open>2^32 - 1\<close>) in ascending numeric order first, then
  the other keys in creation order.
\<close>

definition index_value :: "string \<Rightarrow> nat" where
  "index_value k = foldl (\<lambda>n c. 10 * n + (of_char c - 48)) 0 k"

definition is_array_index :: "string \<Rightarrow> bool" where
  "is_array_index k =
     (k \<noteq> [] \<and> list_all (\<lambda>c. c \<in> set ''0123456789'') k \<and>
      (k = ''0'' \<or> hd k \<noteq> CHR ''0'') \<and> index_value k < 2 ^ 32 - 1)"

definition for_in_keys :: "performance \<Rightarrow> string list" where
  "for_in_keys tp =
     (let ks = map fst tp
      in sort_key index_value (filter is_array_index ks) @
         filter (\<lambda>k. \<not> is_array_index k) ks)"

subsection \<open>processSuggestions\<close>

text \<open>The body of \<open>results.forEach\<close>.\<close>

definition record_result :: "performance \<Rightarrow> TestResult \<Rightarrow> performance" where
  "record_result tp r =
     (if topic r \<in> set object_prototype_keys then tp
      else
        (let tp1 = (if map_of tp (topic r) = None then tp @ [(topic r, Finite 0, Finite 0)] else tp)
         in map (\<lambda>(k, correct_k, total_k).
                   if k = topic r
                   then (k, add_n correct_k (number_of_int (score_r r)),
                            add_n total_k (number_of_int (total_questions r)))
                   else (k, correct_k, total_k)) tp1))"

text \<open>The \<open>for ... in\<close> loop, carrying \<open>worstTopic\<close> and \<open>lowestAccuracy\<close>.\<close>

fun worst_scan :: "performance \<Rightarrow> string list \<Rightarrow> string option \<times> number \<Rightarrow> string option \<times> number" where
  "worst_scan tp [] acc = acc"
| "worst_scan tp (k # ks) (worstTopic, lowestAccuracy) =
     (case map_of tp k of
        None \<Rightarrow> worst_scan tp ks (worstTopic, lowestAccuracy)
      | Some (correct_k, total_k) \<Rightarrow>
          (let accuracy = times_n (divide_n correct_k total_k) (Finite 100) in
           if less_n accuracy lowestAccuracy then worst_scan tp ks (Some k, accuracy)
           else worst_scan tp ks (worstTopic, lowestAccuracy)))"

record suggestion =
  name :: string
  key :: string

text \<open>
  The new value of the \<open>suggestedTopic\<close> state, given its old value. \<open>slug\<close> stands for
  \<open>worstTopic.toLowerCase().replace(/\s+/g, '-')\<close>.
\<close>

definition processSuggestions ::
  "(string \<Rightarrow> string) \<Rightarrow> TestResult list \<Rightarrow> suggestion option \<Rightarrow> suggestion option" where
  "processSuggestions slug results suggestedTopic =
     (if length results = 0 then Some \<lparr>name = ''Let's get started!'', key = []\<rparr>
      else
        (let topicPerformance = foldl record_result [] results;
             (worstTopic, lowestAccuracy) =
                worst_scan topicPerformance (for_in_keys topicPerformance) (None, Finite 101)
         in case worstTopic of
              None \<Rightarrow> suggestedTopic
            | Some w \<Rightarrow> if w \<noteq> [] then Some \<lparr>name = w, key = slug w\<rparr> else suggestedTopic))"

text \<open>
  The aggregate accuracy of a topic over a list of results: the sum of its scores divided
  by the sum of its question counts.
\<close>

definition topic_correct :: "TestResult list \<Rightarrow> string \<Rightarrow> int" where
  "topic_correct results t = sum_list (map score_r (filter (\<lambda>r. topic r = t) results))"

definition topic_total :: "TestResult list \<Rightarrow> string \<Rightarrow> int" where
  "topic_total results t = sum_list (map total_questions (filter (\<lambda>r. topic r = t) results))"

definition aggregate_accuracy :: "TestResult list \<Rightarrow> string \<Rightarrow> rat" where
  "aggregate_accuracy results t = of_int (topic_correct results t) / of_int (topic_total results t)"

text \<open>
  A row whose topic is an ordinary property name and whose counts are those of a test that
  was taken: at least one question, and between none and all of them answered correctly.
\<close>

definition well_formed_row :: "TestResult \<Rightarrow> bool" where
  "well_formed_row r =
     (topic r \<noteq> [] \<and> topic r \<notin> set object_prototype_keys \<and> \<not> is_array_index (topic r) \<and>
      0 < total_questions r \<and> 0 \<le> score_r r \<and> score_r r \<le> total_questions r)"

text \<open>
  \<open>toLowerCase().replace(/\s+/g, '-')\<close> on ASCII text: letters are lowered and each run
  of white space becomes one hyphen.
\<close>

definition ascii_space :: "char \<Rightarrow> bool" where
  "ascii_space c = (c \<in> set [CHR 0x20, CHR 0x09, CHR 0x0A, CHR 0x0B, CHR 0x0C, CHR 0x0D])"

definition ascii_lower :: "char \<Rightarrow> char" where
  "ascii_lower c =
     (case map_of (zip ''ABCDEFGHIJKLMNOPQRSTUVWXYZ'' ''abcdefghijklmnopqrstuvwxyz'') c of
        None \<Rightarrow> c | Some l \<Rightarrow> l)"

fun kebab_from :: "bool \<Rightarrow> string \<Rightarrow> string" where
  "kebab_from in_run [] = []"
| "kebab_from in_run (c # cs) =
     (if ascii_space c then (if in_run then kebab_from True cs else CHR ''-'' # kebab_from True cs)
      else ascii_lower c # kebab_from False cs)"

definition kebab :: "string \<Rightarrow> string" where
  "kebab w = kebab_from False w"

section \<open>Example data\<close>

definition q_sum :: Question where
  "q_sum = \<lparr>question = ''2 + 2 = ?'', options = [''3'', ''4'', ''5'', ''6''],
            correctAnswer = ''4'', explanation = ''Two and two make four.''\<rparr>"

definition q_odd :: Question where
  "q_odd = \<lparr>question = ''Which number is odd?'', options = [''2'', ''4'', ''7'', ''8''],
            correctAnswer = ''7'', explanation = ''Seven is not divisible by two.''\<rparr>"

definition alice :: Profile where
  "alice = \<lparr>id_p = ''u1'', username = Some ''alice'', avatar_url = None, score = 700\<rparr>"

text \<open>The state of the component when it is mounted.\<close>

definition mounted :: practice where
  "mounted = \<lparr>testState = NotStarted, questions = [], currentQuestionIndex = 0, answers = [],
               showExplanation = False, timeLeft = 300, saveError = None, profile = Some alice\<rparr>"

definition signed_in :: env where
  "signed_in = \<lparr>selectedTopic = Some ''Logical Reasoning'', user = Some ''u1'',
                 insertOutcome = Succeeded, rpcOutcome = Succeeded\<rparr>"

definition insert_fails :: env where
  "insert_fails = signed_in\<lparr>insertOutcome := Failed ''permission denied''\<rparr>"

definition anonymous :: env where
  "anonymous = signed_in\<lparr>user := None\<rparr>"

text \<open>A test of two questions, just started; then answered right and wrong, not yet finished.\<close>

definition started :: practice where
  "started = fst (startTest_resume [q_sum, q_odd] (startTest_begin mounted))"

definition answered :: practice where
  "answered =
     run started [(signed_in, SubmitAnswer ''4''), (signed_in, Advance), (signed_in, SubmitAnswer ''2'')]"


text \<open>
  Results of one week: two topics with the same aggregate accuracy, the first of them over
  two tests. And a week whose only row records a test without questions.
\<close>

definition week_rows :: "TestResult list" where
  "week_rows =
     [\<lparr>id_r = ''r1'', created_at = ''2024-05-01T10:00:00Z'', topic = ''Logical Reasoning'',
       score_r = 2, total_questions = 5, user_id = ''u1''\<rparr>,
      \<lparr>id_r = ''r2'', created_at = ''2024-05-02T10:00:00Z'', topic = ''Verbal Ability'',
       score_r = 1, total_questions = 5, user_id = ''u1''\<rparr>,
      \<lparr>id_r = ''r3'', created_at = ''2024-05-03T10:00:00Z'', topic = ''Logical Reasoning'',
       score_r = 0, total_questions = 5, user_id = ''u1''\<rparr>]"

definition empty_test_rows :: "TestResult list" where
  "empty_test_rows =
     [\<lparr>id_r = ''r1'', created_at = ''2024-05-01T10:00:00Z'', topic = ''Logical Reasoning'',
       score_r = 0, total_questions = 0, user_id = ''u1''\<rparr>]"

text \<open>
  The render in which the time is up while the last question shows its explanation and the
  button "Finish Test", and the state its timer effect leaves behind.
\<close>

definition time_up :: practice where
  "time_up = answered\<lparr>timeLeft := 0\<rparr>"

definition after_timer :: practice where
  "after_timer = fst (timeEffect_from signed_in time_up time_up)"

text \<open>
  A \<open>profiles\<close> table in which two users share a score, the reply to the request for the
  ten highest scores over it, and the leaderboard as it is mounted.
\<close>

definition bob :: Profile where
  "bob = \<lparr>id_p = ''u2'', username = Some ''bob'', avatar_url = None, score = 900\<rparr>"

definition carol :: Profile where
  "carol = \<lparr>id_p = ''u3'', username = None, avatar_url = None, score = 700\<rparr>"

definition dan :: Profile where
  "dan = \<lparr>id_p = ''u4'', username = Some ''dan'', avatar_url = None, score = 1200\<rparr>"

definition profiles_table :: "Profile list" where
  "profiles_table = [alice, bob, carol, dan]"

definition top_ten :: top_reply where
  "top_ten = \<lparr>data = Some [dan, bob, alice, carol], error = None\<rparr>"

definition top_ten_other :: top_reply where
  "top_ten_other = \<lparr>data = Some [dan, bob, carol, alice], error = None\<rparr>"

definition board_mounted :: leaderboard_state where
  "board_mounted = \<lparr>leaderboard = [], userRank_of = None, loading = True, fetchError = None\<rparr>"

text \<open>
  A \<open>profiles\<close> table with ten leaders and two users of equal score below them, and the
  reply to the request for the ten highest scores over it.
\<close>

definition leader :: "string \<Rightarrow> int \<Rightarrow> Profile" where
  "leader i n = \<lparr>id_p = i, username = None, avatar_url = None, score = n\<rparr>"

definition leaders :: "Profile list" where
  "leaders =
     [leader ''a'' 2000, leader ''b'' 1900, leader ''c'' 1800, leader ''d'' 1700, leader ''e'' 1600,
      leader ''f'' 1500, leader ''g'' 1400, leader ''h'' 1300, leader ''i'' 1200, leader ''j'' 1100]"

definition erin :: Profile where
  "erin = \<lparr>id_p = ''u5'', username = Some ''erin'', avatar_url = None, score = 500\<rparr>"

definition frank :: Profile where
  "frank = \<lparr>id_p = ''u6'', username = Some ''frank'', avatar_url = None, score = 500\<rparr>"

definition crowded_table :: "Profile list" where
  "crowded_table = erin # leaders @ [frank]"

definition crowded_top :: top_reply where
  "crowded_top = \<lparr>data = Some leaders, error = None\<rparr>"

text \<open>
  Two topics whose question counts are near \<open>2^31\<close> and whose accuracies differ by less
  than the spacing of the doubles below 100.
\<close>

definition close_rows :: "TestResult list" where
  "close_rows =
     [\<lparr>id_r = ''r1'', created_at = ''2024-05-01T10:00:00Z'', topic = ''Quantitative Aptitude'',
       score_r = 2147483646, total_questions = 2147483647, user_id = ''u1''\<rparr>,
      \<lparr>id_r = ''r2'', created_at = ''2024-05-02T10:00:00Z'', topic = ''Verbal Ability'',
       score_r = 2147483645, total_questions = 2147483646, user_id = ''u1''\<rparr>]"

section \<open>Score computation\<close>

lemma filter_length_card:
  "filter_length cb xs = card {i. i < length xs \<and> xs ! i \<noteq> Hole \<and> cb (xs ! i) i}"
proof -
  have "{i. i < length [0..<length xs] \<and>
            (xs ! ([0..<length xs] ! i) \<noteq> Hole \<and> cb (xs ! ([0..<length xs] ! i)) ([0..<length xs] ! i))}
        = {i. i < length xs \<and> xs ! i \<noteq> Hole \<and> cb (xs ! i) i}"
    by auto
  then show ?thesis
    unfolding filter_length_def length_filter_conv_card by simp
qed

lemma correctCount_card:
  "correctCount qs as =
     card {i. i < length as \<and> i < length qs \<and> as ! i = Chosen (correctAnswer (qs ! i))}"
proof -
  have "{i. i < length as \<and> as ! i \<noteq> Hole \<and> is_correct qs (as ! i) i}
        = {i. i < length as \<and> i < length qs \<and> as ! i = Chosen (correctAnswer (qs ! i))}"
    by (auto simp: is_correct_def)
  then show ?thesis
    by (simp add: correctCount_def filter_length_card)
qed

section \<open>Completion\<close>

lemma handleCompletion_Completed: "testState s = Completed \<Longrightarrow> handleCompletion e s = (s, [])"
  by (simp add: handleCompletion_def)

lemma handleCompletion_testState: "testState (fst (handleCompletion e s)) = Completed"
  by (auto simp: handleCompletion_def save_performance_def Let_def
      split: option.splits outcome.splits prod.splits sum.splits)

lemma handleCompletion_frame:
  "questions (fst (handleCompletion e s)) = questions s"
  "answers (fst (handleCompletion e s)) = answers s"
  "currentQuestionIndex (fst (handleCompletion e s)) = currentQuestionIndex s"
  by (auto simp: handleCompletion_def save_performance_def Let_def
      split: option.splits outcome.splits prod.splits sum.splits)

subsection \<open>The example session, evaluated\<close>

lemma started_eq: "started = \<lparr>testState = InProgress, questions = [q_sum, q_odd], currentQuestionIndex = 0,
    answers = [Null, Null], showExplanation = False, timeLeft = 300, saveError = None, profile = Some alice\<rparr>"
  by (simp add: started_def startTest_resume_def startTest_begin_def mounted_def)

lemma answered_eq: "answered = \<lparr>testState = InProgress, questions = [q_sum, q_odd], currentQuestionIndex = 1,
    answers = [Chosen ''4'', Chosen ''2''], showExplanation = True, timeLeft = 300, saveError = None, profile = Some alice\<rparr>"
  by (simp add: answered_def started_eq handleAnswer_def goToNextQuestion_def spread_def assign_index_def)

lemma correctCount_answered: "correctCount [q_sum, q_odd] [Chosen ''4'', Chosen ''2''] = 1"
  by (simp add: correctCount_def filter_length_def is_correct_def q_sum_def q_odd_def upt_rec)


lemma handleCompletion_reports:
  assumes "testState s \<noteq> Completed" and "selectedTopic e = Some t" and "user e = Some u"
  shows "\<exists>fx. snd (handleCompletion e s) =
           InsertTestResult u t (correctCount (questions s) (answers s)) (length (questions s)) # fx"
  using assms
  by (auto simp: handleCompletion_def save_performance_def Let_def split: outcome.splits)

text \<open>
  Claim C1. The score computed by \<open>handleCompletion\<close> is the number of positions \<open>i\<close> at
  which \<open>answers[i]\<close> is the string \<open>questions[i].correctAnswer\<close>. A position holding
  \<open>null\<close> is never among them, whatever the correct answer is (the empty string
  included): with \<open>null\<close> at position \<open>i\<close> the score is the count over the other
  positions. That number is the \<open>score\<close> of the result record sent on completion.
\<close>

theorem correctCount_spec:
  "correctCount qs as =
     card {i. i < length as \<and> i < length qs \<and> as ! i = Chosen (correctAnswer (qs ! i))}
   \<and> correctCount qs (as[i := Null]) =
     card {j. j \<noteq> i \<and> j < length as \<and> j < length qs \<and> as ! j = Chosen (correctAnswer (qs ! j))}
   \<and> (testState s \<noteq> Completed \<and> selectedTopic e = Some t \<and> user e = Some u \<longrightarrow>
        (\<exists>fx. snd (handleCompletion e s) =
           InsertTestResult u t
             (card {i. i < length (answers s) \<and> i < length (questions s) \<and>
                       answers s ! i = Chosen (correctAnswer (questions s ! i))})
             (length (questions s)) # fx))"
proof (intro conjI)
  show "correctCount qs as =
     card {i. i < length as \<and> i < length qs \<and> as ! i = Chosen (correctAnswer (qs ! i))}"
    by (rule correctCount_card)
next
  have "{j. j < length (as[i := Null]) \<and> j < length qs \<and>
            as[i := Null] ! j = Chosen (correctAnswer (qs ! j))}
        = {j. j \<noteq> i \<and> j < length as \<and> j < length qs \<and> as ! j = Chosen (correctAnswer (qs ! j))}"
  proof -
    have "as[i := Null] ! j = Chosen c \<longleftrightarrow> j \<noteq> i \<and> as ! j = Chosen c"
      if "j < length as" for j c
      using that by (cases "j = i") simp_all
    then show ?thesis by auto
  qed
  then show "correctCount qs (as[i := Null]) =
     card {j. j \<noteq> i \<and> j < length as \<and> j < length qs \<and> as ! j = Chosen (correctAnswer (qs ! j))}"
    by (simp add: correctCount_card)
next
  show "testState s \<noteq> Completed \<and> selectedTopic e = Some t \<and> user e = Some u \<longrightarrow>
        (\<exists>fx. snd (handleCompletion e s) =
           InsertTestResult u t
             (card {i. i < length (answers s) \<and> i < length (questions s) \<and>
                       answers s ! i = Chosen (correctAnswer (questions s ! i))})
             (length (questions s)) # fx)"
    using handleCompletion_reports [of s e t u]
    by (simp add: correctCount_card)
qed

theorem correctCount_spec_witness:
  "testState answered \<noteq> Completed \<and> selectedTopic signed_in = Some ''Logical Reasoning'' \<and>
   user signed_in = Some ''u1'' \<and>
   correctCount [q_sum, q_odd] [Null, Chosen ''7''] = 1 \<and>
   correctCount [q_sum\<lparr>correctAnswer := []\<rparr>, q_odd] [Null, Chosen ''7''] = 1 \<and>
   (\<exists>fx. snd (handleCompletion signed_in answered) =
      InsertTestResult ''u1'' ''Logical Reasoning'' 1 2 # fx)"
proof -
  have h: "testState answered \<noteq> Completed \<and> selectedTopic signed_in = Some ''Logical Reasoning'' \<and>
   user signed_in = Some ''u1''"
    by (simp add: answered_eq signed_in_def)
  have c: "card {j. j \<noteq> 0 \<and> j < length [Null, Chosen ''7''] \<and> j < length [q, q_odd] \<and>
                   [Null, Chosen ''7''] ! j = Chosen (correctAnswer ([q, q_odd] ! j))} = 1" for q
  proof -
    have "{j. j \<noteq> 0 \<and> j < length [Null, Chosen ''7''] \<and> j < length [q, q_odd] \<and>
                   [Null, Chosen ''7''] ! j = Chosen (correctAnswer ([q, q_odd] ! j))} = {1}"
      by (auto simp: q_odd_def less_Suc_eq)
    then show ?thesis by simp
  qed
  have a: "correctCount [q_sum, q_odd] [Null, Chosen ''7''] = 1"
  proof -
    have "correctCount [q_sum, q_odd] ([Null, Chosen ''7''][0 := Null]) =
            card {j. j \<noteq> 0 \<and> j < length [Null, Chosen ''7''] \<and> j < length [q_sum, q_odd] \<and>
                   [Null, Chosen ''7''] ! j = Chosen (correctAnswer ([q_sum, q_odd] ! j))}"
      using correctCount_spec [of "[q_sum, q_odd]" "[Null, Chosen ''7'']" 0] by blast
    also have "\<dots> = 1" by (rule c)
    finally show ?thesis by simp
  qed
  have b: "correctCount [q_sum\<lparr>correctAnswer := []\<rparr>, q_odd] [Null, Chosen ''7''] = 1"
  proof -
    have "correctCount [q_sum\<lparr>correctAnswer := []\<rparr>, q_odd] ([Null, Chosen ''7''][0 := Null]) =
            card {j. j \<noteq> 0 \<and> j < length [Null, Chosen ''7''] \<and>
                   j < length [q_sum\<lparr>correctAnswer := []\<rparr>, q_odd] \<and>
                   [Null, Chosen ''7''] ! j =
                     Chosen (correctAnswer ([q_sum\<lparr>correctAnswer := []\<rparr>, q_odd] ! j))}"
      using correctCount_spec [of "[q_sum\<lparr>correctAnswer := []\<rparr>, q_odd]" "[Null, Chosen ''7'']" 0]
      by blast
    also have "\<dots> = 1" by (rule c)
    finally show ?thesis by simp
  qed
  have k: "card {i. i < length (answers answered) \<and> i < length (questions answered) \<and>
                   answers answered ! i = Chosen (correctAnswer (questions answered ! i))} = 1"
    unfolding correctCount_card [symmetric] by (simp add: answered_eq correctCount_answered)
  have "\<exists>fx. snd (handleCompletion signed_in answered) =
      InsertTestResult ''u1'' ''Logical Reasoning''
        (card {i. i < length (answers answered) \<and> i < length (questions answered) \<and>
                  answers answered ! i = Chosen (correctAnswer (questions answered ! i))})
        (length (questions answered)) # fx"
    using correctCount_spec [of "[]" "[]" 0 answered signed_in "''Logical Reasoning''" "''u1''"] h
    by blast
  moreover have "length (questions answered) = 2" by (simp add: answered_eq)
  ultimately have r: "\<exists>fx. snd (handleCompletion signed_in answered) =
      InsertTestResult ''u1'' ''Logical Reasoning'' 1 2 # fx"
    unfolding k by (simp only:)
  from h a b r show ?thesis by blast
qed

subsection \<open>Two calls from one render\<close>

lemma save_performance_from_same:
  "length (questions r) = length (questions s) \<Longrightarrow>
   save_performance_from e uid t sc r s = save_performance e uid t sc s"
  by (simp add: save_performance_from_def save_performance_def)

lemma handleCompletion_from_same: "handleCompletion_from e s s = handleCompletion e s"
  by (simp add: handleCompletion_from_def handleCompletion_def Let_def save_performance_from_same
        split: option.splits)

lemma goToNextQuestion_from_same: "goToNextQuestion_from e s s = goToNextQuestion e s"
proof -
  have "handleCompletion_from e s (s\<lparr>showExplanation := False\<rparr>)
          = handleCompletion e (s\<lparr>showExplanation := False\<rparr>)"
    by (simp add: handleCompletion_from_def handleCompletion_def Let_def save_performance_from_same
        split: option.splits)
  then show ?thesis
    by (simp add: goToNextQuestion_from_def goToNextQuestion_def Let_def)
qed

lemma timeEffect_from_same: "timeEffect_from e s s = timeEffect e s"
  by (simp add: timeEffect_from_def timeEffect_def handleCompletion_from_same)

text \<open>
  The guard holds back a call that comes from a render which saw \<open>Completed\<close>: such a call
  changes nothing and issues nothing. So does, in particular, a call from the render that
  follows a first call.
\<close>

lemma handleCompletion_from_Completed_render:
  "testState r = Completed \<Longrightarrow> handleCompletion_from e r s = (s, [])"
  by (simp add: handleCompletion_from_def)

lemma handleCompletion_next_render:
  "handleCompletion e' (fst (handleCompletion e s)) = (fst (handleCompletion e s), [])"
  by (simp add: handleCompletion_Completed handleCompletion_testState)

lemma time_up_eq: "time_up = \<lparr>testState = InProgress, questions = [q_sum, q_odd], currentQuestionIndex = 1,
    answers = [Chosen ''4'', Chosen ''2''], showExplanation = True, timeLeft = 0, saveError = None, profile = Some alice\<rparr>"
  by (simp add: time_up_def answered_eq)

lemma after_timer_eq: "after_timer = \<lparr>testState = Completed, questions = [q_sum, q_odd], currentQuestionIndex = 1,
    answers = [Chosen ''4'', Chosen ''2''], showExplanation = True, timeLeft = 0, saveError = None,
    profile = Some (alice\<lparr>score := 800\<rparr>)\<rparr>"
  by (simp add: after_timer_def time_up_eq timeEffect_from_def handleCompletion_from_def
        save_performance_from_def signed_in_def correctCount_answered alice_def)

text \<open>
  Claim C2 does not hold of the code. The guard of \<open>handleCompletion\<close> reads the
  \<open>testState\<close> of the render that created the handler, and \<open>setTestState\<close> does not change
  it. In the render \<open>time_up\<close> the test is in progress, the time is up and the last question
  shows the button "Finish Test". The timer effect of that render calls \<open>handleCompletion\<close>:
  the state becomes \<open>Completed\<close>, the result record is inserted and the score incremented.
  A click on "Finish Test" that reaches the handler of the same render calls
  \<open>handleCompletion\<close> a second time, in a state that is already \<open>Completed\<close>: the guard
  passes again, the same result record is inserted and the same increment is issued a second
  time, and the local profile has gained 200 points for one correct answer.
\<close>

theorem handleCompletion_twice_from_one_render:
  "testState time_up = InProgress \<and> timeLeft time_up = 0 \<and>
   render signed_in time_up = Inr (QuestionView q_odd False True) \<and>
   timeEffect_from signed_in time_up time_up =
     (after_timer, [InsertTestResult ''u1'' ''Logical Reasoning'' 1 2, IncrementUserScore 100]) \<and>
   testState after_timer = Completed \<and>
   snd (goToNextQuestion_from signed_in time_up after_timer) =
     [InsertTestResult ''u1'' ''Logical Reasoning'' 1 2, IncrementUserScore 100] \<and>
   map_option score (profile (fst (goToNextQuestion_from signed_in time_up after_timer))) = Some 900"
proof -
  have a: "timeEffect_from signed_in time_up time_up =
     (after_timer, [InsertTestResult ''u1'' ''Logical Reasoning'' 1 2, IncrementUserScore 100])"
    unfolding after_timer_def
    by (simp add: time_up_eq timeEffect_from_def handleCompletion_from_def
        save_performance_from_def signed_in_def correctCount_answered)
  have b: "goToNextQuestion_from signed_in time_up after_timer =
     (after_timer\<lparr>showExplanation := False, profile := Some (alice\<lparr>score := 900\<rparr>)\<rparr>,
      [InsertTestResult ''u1'' ''Logical Reasoning'' 1 2, IncrementUserScore 100])"
    by (simp add: time_up_eq after_timer_eq goToNextQuestion_from_def handleCompletion_from_def
        save_performance_from_def signed_in_def correctCount_answered alice_def)
  have c: "render signed_in time_up = Inr (QuestionView q_odd False True)"
    by (simp add: render_def time_up_eq signed_in_def)
  show ?thesis
    unfolding b using a c by (simp add: time_up_eq after_timer_eq alice_def)
qed

section \<open>The completed screen and the answer buttons\<close>

lemma render_score_correctCount:
  "length as \<le> length qs \<Longrightarrow> render_score qs as = Inr (correctCount qs as)"
proof -
  assume le: "length as \<le> length qs"
  have a: "\<not> list_ex (\<lambda>i. as ! i \<noteq> Hole \<and> length qs \<le> i) [0..<length as]"
    using le by (auto simp: list_ex_iff)
  have b: "filter (\<lambda>i. as ! i \<noteq> Hole \<and> as ! i = Chosen (correctAnswer (qs ! i))) [0..<length as]
         = filter (\<lambda>i. as ! i \<noteq> Hole \<and> is_correct qs (as ! i) i) [0..<length as]"
    using le by (intro filter_cong) (auto simp: is_correct_def)
  show ?thesis using a b by (simp add: render_score_def correctCount_def filter_length_def)
qed










section \<open>Reporting the result\<close>

text \<open>
  Claim C4, as the claim states it, fails: when saving the result fails, the completed
  screen shows the score but puts the remediation panel in the place of the XP line, so
  the points earned are not shown.
\<close>

theorem persistence_failure_counterexample:
  "render insert_fails (fst (handleCompletion insert_fails answered)) =
     Inr (CompletedView 1 2 (DatabaseSetupInstructions ''weekly_progress'' ''permission denied'')) \<and>
   render insert_fails (fst (handleCompletion insert_fails answered)) \<noteq>
     Inr (CompletedView 1 2 (XpEarned 100))"
proof -
  have "length [Chosen ''4'', Chosen ''2''] \<le> length [q_sum, q_odd]" by simp
  then have "render_score [q_sum, q_odd] [Chosen ''4'', Chosen ''2''] = Inr 1"
    by (simp only: render_score_correctCount correctCount_answered)
  then show ?thesis
    by (simp add: handleCompletion_def save_performance_def insert_fails_def signed_in_def
         answered_eq render_def correctCount_answered)
qed

text \<open>
  Claim C4, amended. If the insert of the result record fails with message \<open>m\<close> in a
  session not yet completed, with a topic and a user present, then \<open>handleCompletion\<close>
  returns normally with the state \<open>Completed\<close> and \<open>saveError = m\<close>, and the insert is the
  only request issued (no score increment). The completed screen then shows the score and
  the number of questions, and the remediation panel instead of the XP line when \<open>m\<close> is
  not empty.
\<close>

theorem persistence_failure:
  assumes "testState s \<noteq> Completed" and "selectedTopic e = Some t" and "user e = Some u"
    and "insertOutcome e = Failed m"
  shows "handleCompletion e s =
           (s\<lparr>testState := Completed, saveError := Some m\<rparr>,
            [InsertTestResult u t (correctCount (questions s) (answers s)) (length (questions s))])
         \<and> (length (answers s) \<le> length (questions s) \<longrightarrow>
              render e (fst (handleCompletion e s)) =
                Inr (CompletedView (correctCount (questions s) (answers s)) (length (questions s))
                      (if m \<noteq> [] then DatabaseSetupInstructions ''weekly_progress'' m
                       else XpEarned (correctCount (questions s) (answers s) * 100))))"
proof -
  have hc: "handleCompletion e s =
           (s\<lparr>testState := Completed, saveError := Some m\<rparr>,
            [InsertTestResult u t (correctCount (questions s) (answers s)) (length (questions s))])"
    using assms by (simp add: handleCompletion_def save_performance_def)
  have "render e (s\<lparr>testState := Completed, saveError := Some m\<rparr>) =
                Inr (CompletedView (correctCount (questions s) (answers s)) (length (questions s))
                      (if m \<noteq> [] then DatabaseSetupInstructions ''weekly_progress'' m
                       else XpEarned (correctCount (questions s) (answers s) * 100)))"
    if "length (answers s) \<le> length (questions s)"
    using that assms(2) by (simp add: render_def render_score_correctCount)
  with hc show ?thesis by simp
qed

theorem persistence_failure_witness:
  "testState answered \<noteq> Completed \<and> selectedTopic insert_fails = Some ''Logical Reasoning'' \<and>
   user insert_fails = Some ''u1'' \<and> insertOutcome insert_fails = Failed ''permission denied'' \<and>
   length (answers answered) \<le> length (questions answered) \<and>
   snd (handleCompletion insert_fails answered) = [InsertTestResult ''u1'' ''Logical Reasoning'' 1 2] \<and>
   saveError (fst (handleCompletion insert_fails answered)) = Some ''permission denied'' \<and>
   testState (fst (handleCompletion insert_fails answered)) = Completed"
proof -
  have h: "testState answered \<noteq> Completed" "selectedTopic insert_fails = Some ''Logical Reasoning''"
    "user insert_fails = Some ''u1''" "insertOutcome insert_fails = Failed ''permission denied''"
    by (simp_all add: answered_eq insert_fails_def signed_in_def)
  from persistence_failure [OF h] show ?thesis
    using h by (simp add: answered_eq correctCount_answered)
qed

text \<open>
  Claim C5. \<open>handleCompletion\<close> issues the score increment exactly when the score is
  positive and the insert of the result record was issued and succeeded; the value
  requested is the score times 100.
\<close>

theorem score_increment_iff:
  "IncrementUserScore n \<in> set (snd (handleCompletion e s)) \<longleftrightarrow>
     n = correctCount (questions s) (answers s) * 100 \<and>
     correctCount (questions s) (answers s) > 0 \<and>
     (\<exists>u t. InsertTestResult u t (correctCount (questions s) (answers s)) (length (questions s))
              \<in> set (snd (handleCompletion e s))) \<and>
     insertOutcome e = Succeeded"
  by (auto simp: handleCompletion_def save_performance_def Let_def
      split: option.splits outcome.splits)

theorem score_increment_iff_witness:
  "IncrementUserScore 100 \<in> set (snd (handleCompletion signed_in answered)) \<and>
   IncrementUserScore 100 \<notin> set (snd (handleCompletion insert_fails answered))"
proof -
  have rhs: "100 = correctCount (questions answered) (answers answered) * 100 \<and>
     correctCount (questions answered) (answers answered) > 0 \<and>
     (\<exists>u t. InsertTestResult u t (correctCount (questions answered) (answers answered))
               (length (questions answered))
              \<in> set (snd (handleCompletion signed_in answered))) \<and>
     insertOutcome signed_in = Succeeded"
    by (simp add: answered_eq correctCount_answered signed_in_def
          handleCompletion_def save_performance_def)
  have a: "IncrementUserScore 100 \<in> set (snd (handleCompletion signed_in answered))"
    using score_increment_iff [of 100 signed_in answered] rhs by blast
  have "insertOutcome insert_fails \<noteq> Succeeded"
    by (simp add: insert_fails_def)
  then have b: "IncrementUserScore 100 \<notin> set (snd (handleCompletion insert_fails answered))"
    using score_increment_iff [of 100 insert_fails answered] by blast
  from a b show ?thesis by blast
qed

text \<open>
  Claim C8. Without a user, \<open>handleCompletion\<close> issues no request at all and sets no
  error; it still moves the session to \<open>Completed\<close>, and the completed screen shows the
  score and the XP line computed from it.
\<close>

theorem anonymous_completion:
  assumes "user e = None"
  shows "snd (handleCompletion e s) = [] \<and>
         (testState s \<noteq> Completed \<longrightarrow>
            handleCompletion e s = (s\<lparr>testState := Completed, saveError := None\<rparr>, [])) \<and>
         (testState s \<noteq> Completed \<and> selectedTopic e \<noteq> None \<and>
          length (answers s) \<le> length (questions s) \<longrightarrow>
            render e (fst (handleCompletion e s)) =
              Inr (CompletedView (correctCount (questions s) (answers s)) (length (questions s))
                    (XpEarned (correctCount (questions s) (answers s) * 100))))"
proof -
  have a: "handleCompletion e s = (s\<lparr>testState := Completed, saveError := None\<rparr>, [])"
    if "testState s \<noteq> Completed"
    using that assms by (simp add: handleCompletion_def Let_def split: option.splits)
  have b: "snd (handleCompletion e s) = []"
    using a by (cases "testState s = Completed") (simp_all add: handleCompletion_Completed)
  have c: "render e (s\<lparr>testState := Completed, saveError := None\<rparr>) =
              Inr (CompletedView (correctCount (questions s) (answers s)) (length (questions s))
                    (XpEarned (correctCount (questions s) (answers s) * 100)))"
    if "selectedTopic e \<noteq> None" "length (answers s) \<le> length (questions s)"
    using that by (simp add: render_def render_score_correctCount)
  from a b c show ?thesis by simp
qed

theorem anonymous_completion_witness:
  "user anonymous = None \<and> testState answered \<noteq> Completed \<and> selectedTopic anonymous \<noteq> None \<and>
   length (answers answered) \<le> length (questions answered) \<and>
   snd (handleCompletion anonymous answered) = [] \<and>
   saveError (fst (handleCompletion anonymous answered)) = None \<and>
   render anonymous (fst (handleCompletion anonymous answered)) = Inr (CompletedView 1 2 (XpEarned 100))"
proof -
  have h: "user anonymous = None" by (simp add: anonymous_def signed_in_def)
  have h2: "testState answered \<noteq> Completed \<and> selectedTopic anonymous \<noteq> None \<and>
   length (answers answered) \<le> length (questions answered)"
    by (simp add: anonymous_def signed_in_def answered_eq)
  have r1: "snd (handleCompletion anonymous answered) = []"
    using anonymous_completion [OF h, of answered] by blast
  have r2: "handleCompletion anonymous answered =
              (answered\<lparr>testState := Completed, saveError := None\<rparr>, [])"
    using anonymous_completion [OF h, of answered] h2 by blast
  have r3: "render anonymous (fst (handleCompletion anonymous answered)) =
              Inr (CompletedView (correctCount (questions answered) (answers answered))
                    (length (questions answered))
                    (XpEarned (correctCount (questions answered) (answers answered) * 100)))"
    using anonymous_completion [OF h, of answered] h2 by blast
  have r4: "render anonymous (fst (handleCompletion anonymous answered)) =
              Inr (CompletedView 1 2 (XpEarned 100))"
    unfolding r3 by (simp add: answered_eq correctCount_answered)
  have r5: "saveError (fst (handleCompletion anonymous answered)) = None"
    by (simp add: r2)
  from h h2 r1 r4 r5 show ?thesis by blast
qed

section \<open>Invariants of a running session\<close>

lemma session_inv_start:
  "fetched \<noteq> [] \<Longrightarrow> session_inv (fst (startTest_resume fetched s))"
  by (simp add: session_inv_def startTest_resume_def)

lemma session_inv_handleAnswer:
  "session_inv s \<Longrightarrow> session_inv (handleAnswer opt s)"
  by (simp add: session_inv_def handleAnswer_def assign_index_def spread_def)

lemma session_inv_handleCompletion:
  "session_inv s \<Longrightarrow> session_inv (fst (handleCompletion e s))"
  by (simp add: session_inv_def handleCompletion_testState handleCompletion_frame)

lemma session_inv_goToNextQuestion:
  "session_inv s \<Longrightarrow> session_inv (fst (goToNextQuestion e s))"
proof -
  assume inv: "session_inv s"
  then have "session_inv (s\<lparr>showExplanation := False\<rparr>)" by (simp add: session_inv_def)
  then have "session_inv (fst (handleCompletion e (s\<lparr>showExplanation := False\<rparr>)))"
    by (rule session_inv_handleCompletion)
  with inv show ?thesis
    by (auto simp: goToNextQuestion_def session_inv_def Let_def)
qed

lemma session_inv_tick:
  "session_inv s \<Longrightarrow> session_inv (fst (tick e s))"
proof -
  assume inv: "session_inv s"
  then have a: "session_inv (s\<lparr>timeLeft := timeLeft s - 1\<rparr>)" by (simp add: session_inv_def)
  then have "session_inv (fst (handleCompletion e (s\<lparr>timeLeft := timeLeft s - 1\<rparr>)))"
    by (rule session_inv_handleCompletion)
  with inv a show ?thesis
    by (simp add: tick_def timeEffect_def)
qed

lemma session_inv_perform:
  "session_inv s \<Longrightarrow> session_inv (fst (perform e s op))"
  by (cases op)
     (simp_all add: session_inv_handleAnswer session_inv_goToNextQuestion
        session_inv_handleCompletion session_inv_tick)

lemma session_inv_run: "session_inv s \<Longrightarrow> session_inv (run s ops)"
  by (induction ops arbitrary: s) (auto simp: session_inv_perform)

lemma questions_perform: "questions (fst (perform e s op)) = questions s"
  by (cases op)
     (auto simp: handleAnswer_def goToNextQuestion_def tick_def timeEffect_def Let_def
        handleCompletion_frame)

lemma questions_run: "questions (run s ops) = questions s"
  by (induction ops arbitrary: s) (auto simp: questions_perform)



text \<open>
  The rows a running session sends to \<open>test_results\<close> count at least one question and no
  more correct answers than questions.
\<close>

lemma correctCount_le: "correctCount qs as \<le> length as"
proof -
  have "length (filter (\<lambda>i. as ! i \<noteq> Hole \<and> is_correct qs (as ! i) i) [0..<length as])
          \<le> length [0..<length as]"
    by (rule length_filter_le)
  then show ?thesis by (simp add: correctCount_def filter_length_def)
qed

lemma inserted_row_counts:
  assumes "session_inv s" and "InsertTestResult u t sc n \<in> set (snd (perform e s op))"
  shows "0 < n \<and> sc \<le> n"
proof -
  have hc: "0 < n \<and> sc \<le> n"
    if "session_inv s'" "InsertTestResult u t sc n \<in> set (snd (handleCompletion e s'))" for s'
  proof -
    from that(2) have "sc = correctCount (questions s') (answers s') \<and> n = length (questions s')"
      by (auto simp: handleCompletion_def save_performance_def Let_def
          split: if_splits option.splits outcome.splits)
    with that(1) correctCount_le [of "questions s'" "answers s'"] show ?thesis
      by (auto simp: session_inv_def)
  qed
  show ?thesis
  proof (cases op)
    case (SubmitAnswer x)
    with assms show ?thesis by simp
  next
    case Advance
    have "session_inv (s\<lparr>showExplanation := False\<rparr>)"
      using assms(1) by (simp add: session_inv_def)
    with assms(2) Advance hc [of "s\<lparr>showExplanation := False\<rparr>"] show ?thesis
      by (auto simp: goToNextQuestion_def Let_def split: if_splits)
  next
    case Complete
    with assms hc [of s] show ?thesis by simp
  next
    case Tick
    have "session_inv (s\<lparr>timeLeft := timeLeft s - 1\<rparr>)"
      using assms(1) by (simp add: session_inv_def)
    with assms(2) Tick hc [of "s\<lparr>timeLeft := timeLeft s - 1\<rparr>"] show ?thesis
      by (auto simp: tick_def timeEffect_def split: if_splits)
  qed
qed

text \<open>
  Claim C6. \<open>startTest\<close> fills \<open>answers\<close> with one \<open>null\<close> per fetched question, and from
  then on, through any sequence of answer submissions, advances, completions and timer
  ticks, \<open>questions\<close> stays the fetched list and \<open>answers\<close> keeps its length. Each single
  operation preserves the invariant of a running session. The session ends with
  \<open>resetTest\<close>, which empties \<open>questions\<close> and keeps \<open>answers\<close> and the index as they are.
\<close>

theorem answers_length_invariant:
  assumes "fetched \<noteq> []"
  shows "answers (fst (startTest_resume fetched s0)) = replicate (length fetched) Null \<and>
         questions (run (fst (startTest_resume fetched s0)) ops) = fetched \<and>
         length (answers (run (fst (startTest_resume fetched s0)) ops)) =
           length (questions (run (fst (startTest_resume fetched s0)) ops)) \<and>
         (session_inv s \<longrightarrow>
            length (answers (fst (perform e s op))) = length (questions (fst (perform e s op))))"
proof -
  have "session_inv (run (fst (startTest_resume fetched s0)) ops)"
    using assms by (intro session_inv_run session_inv_start)
  moreover have "session_inv s \<longrightarrow> session_inv (fst (perform e s op))"
    by (simp add: session_inv_perform)
  ultimately show ?thesis
    using assms by (simp add: session_inv_def questions_run) (simp add: startTest_resume_def)
qed

theorem answers_length_invariant_witness:
  "[q_sum, q_odd] \<noteq> [] \<and> session_inv started \<and>
   length (answers answered) = length (questions answered) \<and>
   length (answers (fst (perform signed_in started (SubmitAnswer ''4'')))) =
     length (questions (fst (perform signed_in started (SubmitAnswer ''4''))))"
proof -
  have h1: "[q_sum, q_odd] \<noteq> []" by simp
  have h2: "session_inv started" by (simp add: session_inv_def started_eq)
  from answers_length_invariant [OF h1, of "startTest_begin mounted"
      "[(signed_in, SubmitAnswer ''4''), (signed_in, Advance), (signed_in, SubmitAnswer ''2'')]"
      started signed_in "SubmitAnswer ''4''"] h2
  show ?thesis
    unfolding answered_def started_def by blast
qed



section \<open>The rank shown on the leaderboard\<close>

lemma fetchUserRank_exact:
  assumes "backend (rank_request p) = exact_count table (rank_request p)"
  shows "fetchUserRank backend (Some p) prev =
           Some (1 + length (filter (\<lambda>q. score p < score q) table))"
  using assms by (simp add: fetchUserRank_def exact_count_def rank_request_def)

lemma filter_upt_single:
  assumes "i < n" and "\<And>j. j < n \<Longrightarrow> P j \<longleftrightarrow> j = i"
  shows "filter P [0..<n] = [i]"
proof -
  have split: "[0..<n] = [0..<i] @ i # [Suc i..<n]"
    using assms(1) upt_add_eq_append [of 0 i "n - i"] by (simp add: upt_conv_Cons)
  have "filter P [0..<n] = filter (\<lambda>j. j = i) [0..<n]"
    using assms(2) by (intro filter_cong) simp_all
  also have "\<dots> = filter (\<lambda>j. j = i) ([0..<i] @ i # [Suc i..<n])"
    using split by simp
  also have "\<dots> = [i]"
    by (simp add: filter_empty_conv)
  finally show ?thesis .
qed

lemma map_filter_append:
  "List.map_filter f (xs @ ys) = List.map_filter f xs @ List.map_filter f ys"
  by (simp add: List.map_filter_def)

lemma player_rows:
  "map (\<lambda>pl. PlayerRow (rank pl) (id_p (player pl)) (id_p (player pl) = uid)) (rankedData d)
     = map (\<lambda>index. PlayerRow (index + 1) (id_p (d ! index)) (id_p (d ! index) = uid)) [0..<length d]"
  by (simp add: rankedData_def comp_def)

lemma own_ranks_of_rows:
  "List.map_filter own_rank
     (map (\<lambda>index. PlayerRow (index + 1) (id_p (d ! index)) (id_p (d ! index) = uid)) [0..<length d])
     = map (\<lambda>index. index + 1) (filter (\<lambda>index. id_p (d ! index) = uid) [0..<length d])"
  by (simp add: List.map_filter_def filter_map comp_def)

lemma own_ranks_absent:
  assumes "uid \<notin> id_p ` set d"
  shows "filter (\<lambda>index. id_p (d ! index) = uid) [0..<length d] = []"
  using assms by (auto simp: filter_empty_conv)

lemma own_ranks_present:
  assumes "distinct (map id_p d)" and "i < length d" and "id_p (d ! i) = uid"
  shows "filter (\<lambda>index. id_p (d ! index) = uid) [0..<length d] = [i]"
proof (rule filter_upt_single [OF assms(2)])
  fix j assume j: "j < length d"
  show "id_p (d ! j) = uid \<longleftrightarrow> j = i"
  proof
    assume "id_p (d ! j) = uid"
    with assms(3) have "map id_p d ! j = map id_p d ! i" using j assms(2) by simp
    with assms(1) j assms(2) show "j = i" by (auto simp: distinct_conv_nth)
  next
    assume "j = i" with assms(3) show "id_p (d ! j) = uid" by simp
  qed
qed

lemma isUserInTop10_iff:
  "isUserInTop10 (rankedData d) (Some uid) \<longleftrightarrow> uid \<in> id_p ` set d"
proof -
  have "isUserInTop10 (rankedData d) (Some uid) \<longleftrightarrow> (\<exists>i<length d. id_p (d ! i) = uid)"
    by (auto simp: isUserInTop10_def rankedData_def list_ex_iff)
  also have "\<dots> \<longleftrightarrow> uid \<in> id_p ` set d"
    by (metis image_iff in_set_conv_nth)
  finally show ?thesis .
qed

lemma fetched_state:
  assumes "error reply = None" and "data reply = Some d"
  shows "fetchLeaderboardData reply backend prof st =
           st\<lparr>fetchError := None, leaderboard := rankedData d,
              userRank_of := fetchUserRank backend prof (userRank_of st)\<rparr>"
  using assms by (simp add: fetchLeaderboardData_def)

lemma performInitialFetch_eq:
  "performInitialFetch reply backend prof st =
     fetchLeaderboardData reply backend prof (st\<lparr>loading := False\<rparr>)"
  by (simp add: performInitialFetch_def fetchLeaderboardData_def Let_def split: option.splits)

lemma displayed_you_row:
  assumes "error reply = None" and "data reply = Some d" and "d \<noteq> []" and "\<not> loading st"
    and "uid \<notin> id_p ` set d" and "fetchUserRank backend (Some p) (userRank_of st) = Some (Suc n)"
  shows "displayed_ranks (render_leaderboard (Some uid) (Some p)
           (fetchLeaderboardData reply backend (Some p) st)) = [Suc n]"
proof -
  have rows: "List.map_filter own_rank
      (map (\<lambda>pl. PlayerRow (rank pl) (id_p (player pl)) (id_p (player pl) = uid))
         (rankedData d)) = []"
    by (simp only: player_rows own_ranks_of_rows own_ranks_absent [OF assms(5)]) simp
  have len: "length (rankedData d) \<noteq> 0" using assms(3) by (simp add: rankedData_def)
  show ?thesis
    unfolding fetched_state [OF assms(1,2)]
    using assms(4,5,6) len
    by (simp add: render_leaderboard_def displayed_ranks_def map_filter_append rows
          isUserInTop10_iff List.map_filter_simps)
qed

lemma displayed_list_row:
  assumes "error reply = None" and "data reply = Some d" and "\<not> loading st"
    and "distinct (map id_p d)" and "i < length d" and "id_p (d ! i) = uid"
  shows "displayed_ranks (render_leaderboard (Some uid) prof
           (fetchLeaderboardData reply backend prof st)) = [i + 1]"
proof -
  have in10: "uid \<in> id_p ` set d" using assms(5,6) by (metis image_iff nth_mem)
  have ne: "d \<noteq> []" using assms(5) by auto
  have rows: "List.map_filter own_rank
      (map (\<lambda>pl. PlayerRow (rank pl) (id_p (player pl)) (id_p (player pl) = uid))
         (rankedData d)) = [i + 1]"
    by (simp only: player_rows own_ranks_of_rows own_ranks_present [OF assms(4,5,6)]) simp
  have len: "length (rankedData d) \<noteq> 0" using ne by (simp add: rankedData_def)
  show ?thesis
    unfolding fetched_state [OF assms(1,2)]
    using assms(3) len in10
    by (simp add: render_leaderboard_def displayed_ranks_def map_filter_append rows
          isUserInTop10_iff List.map_filter_simps split: option.splits)
qed

text \<open>
  Claim C9, as the claim states it, fails. A user who is among the ten fetched profiles is
  shown the rank of the row in the list, \<open>index + 1\<close>, and the row that carries
  \<open>userRank\<close> is not rendered. \<open>alice\<close> and \<open>carol\<close> have the same score and are shown the
  ranks 3 and 4, in the order in which the backend returns them; with the other order of the
  tie they are shown 4 and 3. One plus the number of profiles with a strictly greater score
  is 3 for both.
\<close>

theorem userRank_tied_in_list_counterexample:
  "score alice = score carol \<and>
   displayed_ranks (render_leaderboard (Some ''u1'') (Some alice)
      (performInitialFetch top_ten (exact_count profiles_table) (Some alice) board_mounted)) = [3] \<and>
   displayed_ranks (render_leaderboard (Some ''u3'') (Some carol)
      (performInitialFetch top_ten (exact_count profiles_table) (Some carol) board_mounted)) = [4] \<and>
   displayed_ranks (render_leaderboard (Some ''u1'') (Some alice)
      (performInitialFetch top_ten_other (exact_count profiles_table) (Some alice) board_mounted)) = [4] \<and>
   displayed_ranks (render_leaderboard (Some ''u3'') (Some carol)
      (performInitialFetch top_ten_other (exact_count profiles_table) (Some carol) board_mounted)) = [3] \<and>
   1 + length (filter (\<lambda>q. score carol < score q) profiles_table) = 3"
proof -
  let ?st = "board_mounted\<lparr>loading := False\<rparr>"
  have d1: "distinct (map id_p [dan, bob, alice, carol])" "distinct (map id_p [dan, bob, carol, alice])"
    by (simp_all add: alice_def bob_def carol_def dan_def)
  have t: "error top_ten = None" "data top_ten = Some [dan, bob, alice, carol]"
    "error top_ten_other = None" "data top_ten_other = Some [dan, bob, carol, alice]"
    "\<not> loading ?st"
    by (simp_all add: top_ten_def top_ten_other_def)
  have a: "displayed_ranks (render_leaderboard (Some ''u1'') (Some alice)
      (fetchLeaderboardData top_ten (exact_count profiles_table) (Some alice) ?st)) = [2 + 1]"
    by (rule displayed_list_row [OF t(1,2,5) d1(1)]) (simp_all add: alice_def)
  have b: "displayed_ranks (render_leaderboard (Some ''u3'') (Some carol)
      (fetchLeaderboardData top_ten (exact_count profiles_table) (Some carol) ?st)) = [3 + 1]"
    by (rule displayed_list_row [OF t(1,2,5) d1(1)]) (simp_all add: carol_def)
  have c: "displayed_ranks (render_leaderboard (Some ''u1'') (Some alice)
      (fetchLeaderboardData top_ten_other (exact_count profiles_table) (Some alice) ?st)) = [3 + 1]"
    by (rule displayed_list_row [OF t(3,4,5) d1(2)]) (simp_all add: alice_def)
  have d: "displayed_ranks (render_leaderboard (Some ''u3'') (Some carol)
      (fetchLeaderboardData top_ten_other (exact_count profiles_table) (Some carol) ?st)) = [2 + 1]"
    by (rule displayed_list_row [OF t(3,4,5) d1(2)]) (simp_all add: carol_def)
  have e: "score alice = score carol \<and>
           1 + length (filter (\<lambda>q. score carol < score q) profiles_table) = 3"
    by (simp add: profiles_table_def alice_def bob_def carol_def dan_def)
  from a b c d e show ?thesis by (simp add: performInitialFetch_eq)
qed

text \<open>
  Claim C9, amended. When the backend answers the count request of lines 156-159 with the
  number of rows of \<open>profiles\<close> whose score is strictly greater than the user's,
  \<open>fetchLeaderboardData\<close> sets \<open>userRank\<close> to one plus that number: it is never 0, and it is
  the same for two users of equal score. That rank is displayed, on the separate row marked
  "(You)", when the user is not among the fetched profiles of a non-empty list. A user who
  is among them, at index \<open>i\<close> of the reply, is shown \<open>i + 1\<close>.
\<close>

theorem userRank_you_row:
  assumes "backend (rank_request p) = exact_count table (rank_request p)"
  shows "fetchUserRank backend (Some p) prev =
           Some (1 + length (filter (\<lambda>q. score p < score q) table)) \<and>
         fetchUserRank backend (Some p) prev \<noteq> Some 0 \<and>
         (backend (rank_request q) = exact_count table (rank_request q) \<and> score p = score q \<longrightarrow>
            fetchUserRank backend (Some p) prev = fetchUserRank backend (Some q) prev') \<and>
         (error reply = None \<and> data reply = Some d \<and> d \<noteq> [] \<and> \<not> loading st \<and>
          uid \<notin> id_p ` set d \<longrightarrow>
            displayed_ranks (render_leaderboard (Some uid) (Some p)
               (fetchLeaderboardData reply backend (Some p) st))
              = [1 + length (filter (\<lambda>q. score p < score q) table)]) \<and>
         (error reply = None \<and> data reply = Some d \<and> \<not> loading st \<and>
          distinct (map id_p d) \<and> i < length d \<and> id_p (d ! i) = uid \<longrightarrow>
            displayed_ranks (render_leaderboard (Some uid) (Some p)
               (fetchLeaderboardData reply backend (Some p) st)) = [i + 1])"
proof -
  note r = fetchUserRank_exact [of backend p table, OF assms]
  have 1: "fetchUserRank backend (Some p) prev \<noteq> Some 0" by (simp add: r)
  have 2: "fetchUserRank backend (Some p) prev = fetchUserRank backend (Some q) prev'"
    if "backend (rank_request q) = exact_count table (rank_request q)" "score p = score q"
    using that by (simp add: r fetchUserRank_exact)
  have 3: "displayed_ranks (render_leaderboard (Some uid) (Some p)
               (fetchLeaderboardData reply backend (Some p) st))
              = [1 + length (filter (\<lambda>q. score p < score q) table)]"
    if "error reply = None" "data reply = Some d" "d \<noteq> []" "\<not> loading st" "uid \<notin> id_p ` set d"
    using displayed_you_row [OF that, of backend p "length (filter (\<lambda>q. score p < score q) table)"]
    by (simp add: r)
  have 4: "displayed_ranks (render_leaderboard (Some uid) (Some p)
               (fetchLeaderboardData reply backend (Some p) st)) = [i + 1]"
    if "error reply = None" "data reply = Some d" "\<not> loading st"
       "distinct (map id_p d)" "i < length d" "id_p (d ! i) = uid"
    using that by (rule displayed_list_row)
  from r 1 2 3 4 show ?thesis by blast
qed

theorem userRank_you_row_witness:
  "score erin = score frank \<and>
   fetchUserRank (exact_count crowded_table) (Some erin) None = Some 11 \<and>
   fetchUserRank (exact_count crowded_table) (Some frank) (Some 4) = Some 11 \<and>
   displayed_ranks (render_leaderboard (Some ''u6'') (Some frank)
      (performInitialFetch crowded_top (exact_count crowded_table) (Some frank) board_mounted)) = [11] \<and>
   displayed_ranks (render_leaderboard (Some ''c'') (Some (leader ''c'' 1800))
      (performInitialFetch crowded_top (exact_count crowded_table) (Some (leader ''c'' 1800))
         board_mounted)) = [3]"
proof -
  let ?st = "board_mounted\<lparr>loading := False\<rparr>"
  have sc: "score erin = score frank" by (simp add: erin_def frank_def)
  have cnt: "length (filter (\<lambda>q. score p < score q) crowded_table) = 10" if "score p = 500" for p
    using that by (simp add: crowded_table_def leaders_def leader_def erin_def frank_def)
  have e: "fetchUserRank (exact_count crowded_table) (Some erin) None =
             Some (1 + length (filter (\<lambda>q. score erin < score q) crowded_table))"
    using userRank_you_row [of "exact_count crowded_table" erin crowded_table None] by blast
  have f: "fetchUserRank (exact_count crowded_table) (Some erin) None =
           fetchUserRank (exact_count crowded_table) (Some frank) (Some 4)"
    using userRank_you_row [of "exact_count crowded_table" erin crowded_table None frank "Some 4"] sc
    by blast
  have top: "error crowded_top = None \<and> data crowded_top = Some leaders \<and>
             leaders \<noteq> [] \<and> \<not> loading ?st \<and> ''u6'' \<notin> id_p ` set leaders"
    by (simp add: crowded_top_def leaders_def leader_def)
  have g: "displayed_ranks (render_leaderboard (Some ''u6'') (Some frank)
      (fetchLeaderboardData crowded_top (exact_count crowded_table) (Some frank) ?st))
        = [1 + length (filter (\<lambda>q. score frank < score q) crowded_table)]"
    using userRank_you_row [of "exact_count crowded_table" frank crowded_table None frank None
        crowded_top leaders ?st "''u6''"] top
    by blast
  have lst: "error crowded_top = None \<and> data crowded_top = Some leaders \<and>
             \<not> loading ?st \<and> distinct (map id_p leaders) \<and>
             2 < length leaders \<and> id_p (leaders ! 2) = ''c''"
    by (simp add: crowded_top_def leaders_def leader_def)
  have h: "displayed_ranks (render_leaderboard (Some ''c'') (Some (leader ''c'' 1800))
      (fetchLeaderboardData crowded_top (exact_count crowded_table) (Some (leader ''c'' 1800))
         ?st)) = [2 + 1]"
    using userRank_you_row [of "exact_count crowded_table" "leader ''c'' 1800" crowded_table None
        "leader ''c'' 1800" None crowded_top leaders ?st "''c''" 2] lst
    by blast
  have "score erin = 500" "score frank = 500" by (simp_all add: erin_def frank_def)
  note c10 = cnt [OF this(1)] cnt [OF this(2)]
  have e': "fetchUserRank (exact_count crowded_table) (Some erin) None = Some 11"
    unfolding e c10 by simp
  have g': "displayed_ranks (render_leaderboard (Some ''u6'') (Some frank)
      (fetchLeaderboardData crowded_top (exact_count crowded_table) (Some frank) ?st)) = [11]"
    unfolding g c10 by simp
  from sc e' f g' h show ?thesis by (simp add: performInitialFetch_eq)
qed

section \<open>The suggested topic\<close>

subsection \<open>Rounding to a double\<close>

text \<open>
  \<open>nearest\<close> is monotone, leaves the doubles as they are, and keeps two numbers apart that
  are two spacings apart. Hence \<open>(correct / total) * 100\<close>, computed in doubles, is monotone
  in the exact quotient, and strictly so for quotients at least \<open>2^(-50)\<close> apart.
\<close>

lemma two_powi_pos [simp]: "0 < (2::rat) powi n"
  by simp

lemma two_powi_mono: "m \<le> n \<Longrightarrow> (2::rat) powi m \<le> 2 powi n"
  by (rule power_int_increasing) simp_all

lemma two_powi_strict: "m < n \<Longrightarrow> (2::rat) powi m < 2 powi n"
  by (rule power_int_strict_increasing) simp_all

lemma two_powi_less_iff: "(2::rat) powi m < 2 powi n \<longleftrightarrow> m < n"
  by (metis two_powi_mono two_powi_strict not_less order.asym)

lemma two_powi_Suc: "(2::rat) powi (n + 1) = 2 * 2 powi n"
  by (simp add: power_int_add)

lemma bitlen_powi:
  assumes "0 < p"
  shows "(2::rat) powi (bitlen p - 1) \<le> of_int p" and "of_int p < (2::rat) powi bitlen p"
proof -
  from bitlen_bounds [OF assms] have a: "2 ^ nat (bitlen p - 1) \<le> p" and b: "p < 2 ^ nat (bitlen p)"
    by simp_all
  have pos: "1 \<le> bitlen p" using assms by (simp add: bitlen_alt_def)
  have "(2::rat) powi (bitlen p - 1) = 2 ^ nat (bitlen p - 1)"
    using pos by (simp add: power_int_def)
  also have "\<dots> = of_int (2 ^ nat (bitlen p - 1))" by simp
  also have "\<dots> \<le> of_int p" using a by (simp only: of_int_le_iff)
  finally show "(2::rat) powi (bitlen p - 1) \<le> of_int p" .
  have "(of_int p :: rat) < of_int (2 ^ nat (bitlen p))" using b by (simp only: of_int_less_iff)
  also have "\<dots> = 2 powi bitlen p" using pos by (simp add: power_int_def)
  finally show "of_int p < (2::rat) powi bitlen p" .
qed

lemma exponent_bounds:
  assumes "0 < x"
  shows "2 powi exponent x \<le> x" and "x < 2 powi (exponent x + 1)"
proof -
  obtain p q where pq: "quotient_of x = (p, q)" by (cases "quotient_of x")
  then have q: "0 < q" and x: "x = of_int p / of_int q"
    by (simp_all add: quotient_of_denom_pos quotient_of_div)
  with assms have p: "0 < p" by (simp add: zero_less_divide_iff)
  let ?e = "bitlen p - bitlen q"
  have qr: "(0::rat) < of_int q" using q by simp
  have "x < 2 powi bitlen p / 2 powi (bitlen q - 1)"
    unfolding x using bitlen_powi [OF p] bitlen_powi [OF q] qr p
    by (intro frac_less) simp_all
  moreover have "(2::rat) powi (?e + 1) = 2 powi bitlen p / 2 powi (bitlen q - 1)"
    using power_int_diff [of "2::rat" "bitlen p" "bitlen q - 1"] by (simp add: algebra_simps)
  ultimately have up: "x < 2 powi (?e + 1)" by simp
  have "2 powi (bitlen p - 1) / 2 powi bitlen q \<le> x"
    unfolding x using bitlen_powi [OF p] bitlen_powi [OF q] qr p
    by (intro frac_le) simp_all
  moreover have "(2::rat) powi (?e - 1) = 2 powi (bitlen p - 1) / 2 powi bitlen q"
    using power_int_diff [of "2::rat" "bitlen p - 1" "bitlen q"] by (simp add: algebra_simps)
  ultimately have lo: "2 powi (?e - 1) \<le> x" by simp
  have e: "exponent x = (if 2 powi ?e \<le> x then ?e else ?e - 1)"
    by (simp add: exponent_def pq Let_def)
  show "2 powi exponent x \<le> x" using lo by (simp add: e)
  show "x < 2 powi (exponent x + 1)" using up by (auto simp: e not_le)
qed

lemma exponent_unique:
  assumes "0 < x" and "2 powi e \<le> x" and "x < 2 powi (e + 1)"
  shows "exponent x = e"
proof -
  from exponent_bounds [OF assms(1)] assms(2,3)
  have "(2::rat) powi exponent x < 2 powi (e + 1)" and "(2::rat) powi e < 2 powi (exponent x + 1)"
    by simp_all
  then show ?thesis by (simp add: two_powi_less_iff)
qed

lemma exponent_mono:
  assumes "0 < x" and "x \<le> y"
  shows "exponent x \<le> exponent y"
proof -
  from assms have "0 < y" by simp
  from exponent_bounds [OF assms(1)] exponent_bounds [OF this] assms(2)
  have "(2::rat) powi exponent x < 2 powi (exponent y + 1)" by simp
  then show ?thesis by (simp add: two_powi_less_iff)
qed

lemma round_even_le: "y \<le> of_int k \<Longrightarrow> round_even y \<le> k"
proof -
  assume a: "y \<le> of_int k"
  then have f: "\<lfloor>y\<rfloor> \<le> k" by (simp add: floor_le_iff)
  show ?thesis
  proof (cases "\<lfloor>y\<rfloor> = k")
    case True
    with a have "y = of_int \<lfloor>y\<rfloor>" by (metis of_int_floor_le order_antisym)
    then have "y - of_int \<lfloor>y\<rfloor> = 0" by simp
    then show ?thesis using True by (simp add: round_even_def Let_def)
  next
    case False
    with f have "\<lfloor>y\<rfloor> + 1 \<le> k" by simp
    then show ?thesis by (simp add: round_even_def Let_def)
  qed
qed

lemma round_even_ge: "of_int k \<le> y \<Longrightarrow> k \<le> round_even y"
proof -
  assume "of_int k \<le> y"
  then have "k \<le> \<lfloor>y\<rfloor>" by (simp add: le_floor_iff)
  then show ?thesis by (simp add: round_even_def Let_def)
qed

lemma round_even_of_int [simp]: "round_even (of_int k) = k"
  by (simp add: round_even_def)

lemma round_even_mono: "a \<le> b \<Longrightarrow> round_even a \<le> round_even b"
proof -
  assume ab: "a \<le> b"
  then have f: "\<lfloor>a\<rfloor> \<le> \<lfloor>b\<rfloor>" by (rule floor_mono)
  show ?thesis
  proof (cases "\<lfloor>a\<rfloor> = \<lfloor>b\<rfloor>")
    case True
    with ab have "a - of_int \<lfloor>a\<rfloor> \<le> b - of_int \<lfloor>b\<rfloor>" by simp
    then show ?thesis using True by (auto simp: round_even_def Let_def)
  next
    case False
    with f have "\<lfloor>a\<rfloor> + 1 \<le> \<lfloor>b\<rfloor>" by simp
    moreover have "round_even a \<le> \<lfloor>a\<rfloor> + 1" by (simp add: round_even_def Let_def)
    moreover have "\<lfloor>b\<rfloor> \<le> round_even b" by (simp add: round_even_def Let_def)
    ultimately show ?thesis by linarith
  qed
qed

lemma nearest_zero [simp]: "nearest 0 = 0"
  using round_even_of_int [of 0] by (simp add: nearest_def del: round_even_of_int)

lemma nearest_nonneg: "0 \<le> x \<Longrightarrow> 0 \<le> nearest x"
proof -
  assume "0 \<le> x"
  then have "of_int 0 \<le> x / 2 powi (max (exponent x) (- 1022) - 52)" by simp
  then have "0 \<le> round_even (x / 2 powi (max (exponent x) (- 1022) - 52))"
    by (rule round_even_ge)
  then show ?thesis by (simp add: nearest_def Let_def)
qed

lemma nearest_mono_pos:
  assumes "0 < x" and "x \<le> y"
  shows "nearest x \<le> nearest y"
proof -
  from assms have y: "0 < y" by simp
  define ex where "ex = max (exponent x) (- 1022)"
  define ey where "ey = max (exponent y) (- 1022)"
  define qx :: rat where "qx = 2 powi (ex - 52)"
  define qy :: rat where "qy = 2 powi (ey - 52)"
  have nx: "nearest x = of_int (round_even (x / qx)) * qx"
    and ny: "nearest y = of_int (round_even (y / qy)) * qy"
    by (simp_all add: nearest_def Let_def qx_def qy_def ex_def ey_def)
  have qpos: "0 < qx" "0 < qy" by (simp_all add: qx_def qy_def)
  have le: "ex \<le> ey"
    using exponent_mono [OF assms] by (simp add: ex_def ey_def)
  show ?thesis
  proof (cases "ex = ey")
    case True
    then have q: "qx = qy" by (simp add: qx_def qy_def)
    have "x / qy \<le> y / qy" using assms(2) qpos(2) by (simp add: divide_right_mono)
    then have "round_even (x / qy) \<le> round_even (y / qy)" by (rule round_even_mono)
    then show ?thesis using qpos(2) by (simp add: nx ny q)
  next
    case False
    with le have lt: "ex < ey" by simp
    then have ey: "ey = exponent y" by (auto simp: ex_def ey_def max_def split: if_splits)
    have "x < 2 powi (exponent x + 1)" by (rule exponent_bounds [OF assms(1)])
    also have "\<dots> \<le> 2 powi (ex + 1)" by (rule two_powi_mono) (simp add: ex_def)
    finally have "x / qx < 2 powi (ex + 1) / qx" using qpos(1) by (simp add: divide_strict_right_mono)
    also have "2 powi (ex + 1) / qx = 2 powi 53"
      using power_int_diff [of "2::rat" "ex + 1" "ex - 52"] by (simp add: qx_def)
    finally have "x / qx \<le> of_int (2 ^ 53)" by simp
    then have "round_even (x / qx) \<le> 2 ^ 53" by (rule round_even_le)
    then have "(of_int (round_even (x / qx)) :: rat) \<le> of_int (2 ^ 53)" by (simp only: of_int_le_iff)
    then have "nearest x \<le> of_int (2 ^ 53) * qx"
      unfolding nx using qpos(1) by (intro mult_right_mono) simp_all
    also have "of_int (2 ^ 53) * qx = 2 powi (ex + 1)"
      using power_int_add [of "2::rat" 53 "ex - 52"] by (simp add: qx_def add.commute)
    also have "\<dots> \<le> 2 powi ey" using lt by (intro two_powi_mono) simp
    finally have a: "nearest x \<le> 2 powi ey" .
    have "2 powi ey \<le> y" unfolding ey by (rule exponent_bounds [OF y])
    then have "2 powi ey / qy \<le> y / qy" using qpos(2) by (simp add: divide_right_mono)
    moreover have "2 powi ey / qy = 2 powi 52"
      using power_int_diff [of "2::rat" ey "ey - 52"] by (simp add: qy_def)
    ultimately have "of_int (2 ^ 52) \<le> y / qy" by simp
    then have "2 ^ 52 \<le> round_even (y / qy)" by (rule round_even_ge)
    then have "(of_int (2 ^ 52) :: rat) \<le> of_int (round_even (y / qy))" by (simp only: of_int_le_iff)
    then have "of_int (2 ^ 52) * qy \<le> nearest y"
      unfolding ny using qpos(2) by (intro mult_right_mono) simp_all
    moreover have "of_int (2 ^ 52) * qy = 2 powi ey"
      using power_int_add [of "2::rat" 52 "ey - 52"] by (simp add: qy_def add.commute)
    ultimately have "2 powi ey \<le> nearest y" by simp
    with a show ?thesis by simp
  qed
qed

lemma nearest_mono: "0 \<le> x \<Longrightarrow> x \<le> y \<Longrightarrow> nearest x \<le> nearest y"
  by (cases "x = 0") (simp_all add: nearest_nonneg nearest_mono_pos)

lemma nearest_fixed:
  assumes k: "0 < k" "k < 2 ^ 53" and j: "- 1074 \<le> j"
  shows "nearest (of_int k * 2 powi j) = of_int k * 2 powi j"
proof -
  define r :: rat where "r = of_int k * 2 powi j"
  have r: "0 < r" using k by (simp add: r_def)
  define e where "e = max (exponent r) (- 1022)"
  have "2 powi exponent r \<le> r" by (rule exponent_bounds [OF r])
  also have "r < of_int (2 ^ 53) * 2 powi j"
    unfolding r_def using k(2) by (intro mult_strict_right_mono) (simp_all only: of_int_less_iff two_powi_pos)
  also have "of_int (2 ^ 53) * 2 powi j = (2::rat) powi (53 + j)"
    using power_int_add [of "2::rat" 53 j] by simp
  finally have "exponent r < 53 + j" by (simp add: two_powi_less_iff)
  with j have d: "0 \<le> j - (e - 52)" by (simp add: e_def)
  have "r / 2 powi (e - 52) = of_int k * 2 powi (j - (e - 52))"
    using power_int_diff [of "2::rat" j "e - 52"] by (simp add: r_def)
  also have "(2::rat) powi (j - (e - 52)) = of_int (2 ^ nat (j - (e - 52)))"
    using d by (simp add: power_int_def)
  finally have "r / 2 powi (e - 52) = of_int (k * 2 ^ nat (j - (e - 52)))" by simp
  then have "round_even (r / 2 powi (e - 52)) = k * 2 ^ nat (j - (e - 52))"
    by (simp only: round_even_of_int)
  then have "of_int (round_even (r / 2 powi (e - 52))) = r / 2 powi (e - 52)"
    using \<open>r / 2 powi (e - 52) = of_int (k * 2 ^ nat (j - (e - 52)))\<close> by simp
  then have "nearest r = r / 2 powi (e - 52) * 2 powi (e - 52)"
    by (simp add: nearest_def Let_def e_def)
  then show ?thesis by (simp add: r_def)
qed

lemma nearest_gap:
  assumes x: "0 \<le> x" and gap: "x + 2 * 2 powi j \<le> y" and top: "y < 2 ^ 53 * 2 powi j"
    and j: "- 1074 \<le> j"
  shows "nearest x + 2 powi j \<le> nearest y"
proof -
  define g :: rat where "g = 2 powi j"
  have g: "0 < g" by (simp add: g_def)
  define k where "k = \<lceil>x / g\<rceil>"
  have "0 \<le> x / g" using x g by simp
  then have "- 1 < x / g" by linarith
  then have k0: "0 \<le> k" by (simp add: k_def)
  have "x / g \<le> of_int k" unfolding k_def by (rule le_of_int_ceiling)
  then have lo: "x \<le> of_int k * g"
    using g by (simp only: pos_divide_le_eq)
  have "of_int k < x / g + 1" unfolding k_def by linarith
  then have "of_int k * g < (x / g + 1) * g"
    using g by (rule mult_strict_right_mono)
  also have "(x / g + 1) * g = x + g"
    using g by (simp add: distrib_right)
  finally have hi: "of_int k * g < x + g" .
  have "of_int (k + 1) * g = of_int k * g + g" by (simp add: distrib_right)
  also have "\<dots> < x + g + g" using hi by simp
  also have "x + g + g = x + 2 * 2 powi j" by (simp add: g_def)
  finally have "of_int (k + 1) * g < y" using gap by simp
  then have r2y: "of_int (k + 1) * g \<le> y" by simp
  have "y < of_int (2 ^ 53) * g" using top by (simp add: g_def)
  with r2y have "of_int (k + 1) * g < of_int (2 ^ 53) * g"
    by (rule le_less_trans)
  then have "(of_int (k + 1) :: rat) < of_int (2 ^ 53)"
    using g by (simp only: mult_less_cancel_right_pos)
  then have k53: "k + 1 < 2 ^ 53" by (simp only: of_int_less_iff)
  have a: "nearest x \<le> of_int k * g"
  proof (cases "k = 0")
    case True
    with lo x have "x = 0" by simp
    then show ?thesis using True by simp
  next
    case False
    with k0 have kpos: "0 < k" by simp
    have "nearest (of_int k * g) = of_int k * g"
      unfolding g_def using kpos k53 j by (intro nearest_fixed) simp_all
    with nearest_mono [OF x lo] show ?thesis by simp
  qed
  have "nearest (of_int (k + 1) * g) = of_int (k + 1) * g"
    unfolding g_def using k0 k53 j by (intro nearest_fixed) simp_all
  moreover have "0 \<le> of_int (k + 1) * g" using k0 g by simp
  ultimately have b: "of_int (k + 1) * g \<le> nearest y"
    using nearest_mono [OF _ r2y] by simp
  have "nearest x + g \<le> of_int k * g + g" using a by simp
  also have "\<dots> = of_int (k + 1) * g" by (simp add: distrib_right)
  also note b
  finally show ?thesis by (simp only: g_def)
qed

lemma round64_nonneg:
  assumes "0 \<le> x" and "x \<le> 2 ^ 60"
  shows "round64 x = Finite (nearest x)"
proof (cases "x = 0")
  case True
  then show ?thesis by (simp add: round64_def)
next
  case False
  with assms have x: "0 < x" by simp
  have "nearest (of_int 1 * 2 powi 60) = of_int 1 * 2 powi 60"
    by (rule nearest_fixed) simp_all
  then have "nearest (2 ^ 60) = 2 ^ 60" by simp
  with nearest_mono [OF assms] have "nearest x \<le> 2 ^ 60" by simp
  also have "(2::rat) ^ 60 < 2 ^ 1024" by simp
  finally have "\<not> 2 ^ 1024 \<le> nearest x" by simp
  then show ?thesis using x by (simp add: round64_def Let_def)
qed

lemma nearest_of_int:
  assumes "0 \<le> k" and "k < 2 ^ 53"
  shows "nearest (of_int k) = of_int k"
proof (cases "k = 0")
  case True
  then show ?thesis by simp
next
  case False
  with assms have "0 < k" by simp
  from nearest_fixed [OF this assms(2), of 0] show ?thesis by simp
qed

lemma round64_of_int:
  assumes "0 \<le> k" and "k < 2 ^ 53"
  shows "round64 (of_int k) = Finite (of_int k)"
proof -
  have "(of_int k :: rat) \<le> of_int (2 ^ 60)"
    using assms(2) by (simp only: of_int_le_iff) simp
  then have "(of_int k :: rat) \<le> 2 ^ 60" by simp
  moreover have "(0::rat) \<le> of_int k" using assms(1) by simp
  ultimately show ?thesis
    by (simp add: round64_nonneg nearest_of_int [OF assms])
qed

lemma nearest_le_1: "0 \<le> a \<Longrightarrow> a \<le> 1 \<Longrightarrow> nearest a \<le> 1"
  using nearest_mono [of a 1] nearest_of_int [of 1] by simp

lemma percent64_mono:
  assumes "0 \<le> a" and "a \<le> b"
  shows "percent64 a \<le> percent64 b"
proof -
  have "nearest a \<le> nearest b" using assms by (rule nearest_mono)
  then have "nearest a * 100 \<le> nearest b * 100" by simp
  moreover have "0 \<le> nearest a * 100" using nearest_nonneg [OF assms(1)] by simp
  ultimately show ?thesis unfolding percent64_def by (rule nearest_mono [rotated])
qed

lemma percent64_le_100:
  assumes "0 \<le> a" and "a \<le> 1"
  shows "percent64 a \<le> 100" and "0 \<le> percent64 a"
proof -
  have n: "0 \<le> nearest a" "nearest a \<le> 1"
    using assms by (simp_all add: nearest_nonneg nearest_le_1)
  then have "0 \<le> nearest a * 100" "nearest a * 100 \<le> 100" by simp_all
  with nearest_mono [of "nearest a * 100" 100] nearest_of_int [of 100]
  show "percent64 a \<le> 100" by (simp add: percent64_def)
  show "0 \<le> percent64 a"
    unfolding percent64_def using n(1) by (intro nearest_nonneg) simp
qed

lemma percent64_strict:
  assumes a: "0 \<le> a" and gap: "a + 2 powi (- 50) \<le> b" and b: "b \<le> 1"
  shows "percent64 a < percent64 b"
proof -
  have e50: "(2::rat) powi (- 50) = 2 * 2 powi (- 51)"
    using two_powi_Suc [of "- 51"] by simp
  have "nearest a + 2 powi (- 51) \<le> nearest b"
  proof (rule nearest_gap [OF a])
    show "a + 2 * 2 powi (- 51) \<le> b" using gap by (simp only: e50)
    have "b < 2 ^ 53 * 2 powi (- 51)" using b by (simp add: power_int_minus)
    then show "b < 2 ^ 53 * 2 powi (- 51)" .
  qed simp
  then have step: "nearest a * 100 + 100 * 2 powi (- 51) \<le> nearest b * 100" by simp
  have "(0::rat) < 2 powi (- 50)" by simp
  with gap a have b0: "0 \<le> b" by linarith
  have nb: "nearest b \<le> 1" using b0 b by (rule nearest_le_1)
  have "2 * (2::rat) powi (- 46) \<le> 100 * 2 powi (- 51)" by (simp add: power_int_minus)
  with step have g2: "nearest a * 100 + 2 * 2 powi (- 46) \<le> nearest b * 100" by linarith
  have "nearest (nearest a * 100) + 2 powi (- 46) \<le> nearest (nearest b * 100)"
  proof (rule nearest_gap [OF _ g2])
    show "0 \<le> nearest a * 100" using nearest_nonneg [OF a] by simp
    have "nearest b * 100 \<le> 100" using nb by simp
    also have "(100::rat) < 2 ^ 53 * 2 powi (- 46)" by (simp add: power_int_minus)
    finally show "nearest b * 100 < 2 ^ 53 * 2 powi (- 46)" .
  qed simp
  moreover have "(0::rat) < 2 powi (- 46)" by simp
  ultimately show ?thesis unfolding percent64_def by linarith
qed

lemma quotient_gap:
  fixes c1 t1 c2 t2 :: int
  assumes t: "0 < t1" "t1 \<le> 2 ^ 25" "0 < t2" "t2 \<le> 2 ^ 25"
    and lt: "(of_int c1 :: rat) / of_int t1 < of_int c2 / of_int t2"
  shows "(of_int c1 :: rat) / of_int t1 + 2 powi (- 50) \<le> of_int c2 / of_int t2"
proof -
  have pos: "(0::rat) < of_int t1" "(0::rat) < of_int t2" using t by simp_all
  have dpos: "(0::rat) < of_int t1 * of_int t2" using pos by simp
  from lt dpos have "(of_int c1 :: rat) / of_int t1 * (of_int t1 * of_int t2)
                      < of_int c2 / of_int t2 * (of_int t1 * of_int t2)"
    by (rule mult_strict_right_mono)
  moreover have "(of_int c1 :: rat) / of_int t1 * (of_int t1 * of_int t2) = of_int c1 * of_int t2"
    using pos by simp
  moreover have "(of_int c2 :: rat) / of_int t2 * (of_int t1 * of_int t2) = of_int c2 * of_int t1"
    using pos by simp
  ultimately have "(of_int c1 :: rat) * of_int t2 < of_int c2 * of_int t1" by simp
  then have "(of_int (c1 * t2) :: rat) < of_int (c2 * t1)" by simp
  then have "c1 * t2 < c2 * t1" by (simp only: of_int_less_iff)
  then have "c1 * t2 + 1 \<le> c2 * t1" by simp
  then have "(of_int (c1 * t2 + 1) :: rat) \<le> of_int (c2 * t1)" by (simp only: of_int_le_iff)
  then have num: "(of_int c1 :: rat) * of_int t2 + 1 \<le> of_int c2 * of_int t1" by simp
  have "t1 * t2 \<le> 2 ^ 25 * 2 ^ 25" using t by (intro mult_mono) simp_all
  then have "(of_int (t1 * t2) :: rat) \<le> of_int (2 ^ 25 * 2 ^ 25)" by (simp only: of_int_le_iff)
  then have den: "(of_int t1 :: rat) * of_int t2 \<le> 2 ^ 50" by simp
  have "(2::rat) powi (- 50) = 1 / 2 ^ 50" by (simp add: power_int_minus inverse_eq_divide)
  also have "\<dots> \<le> 1 / (of_int t1 * of_int t2)"
    using den dpos by (intro divide_left_mono) simp_all
  finally have small: "(2::rat) powi (- 50) \<le> 1 / (of_int t1 * of_int t2)" .
  have "(of_int c1 :: rat) / of_int t1 + 1 / (of_int t1 * of_int t2)
          = (of_int c1 * of_int t2) / (of_int t1 * of_int t2) + 1 / (of_int t1 * of_int t2)"
    using pos by simp
  also have "\<dots> = (of_int c1 * of_int t2 + 1) / (of_int t1 * of_int t2)"
    by (simp only: add_divide_distrib)
  also have "\<dots> \<le> (of_int c2 * of_int t1) / (of_int t1 * of_int t2)"
    using num dpos by (intro divide_right_mono) simp_all
  also have "\<dots> = of_int c2 / of_int t2" using pos by simp
  finally show ?thesis using small by linarith
qed

lemma accuracy_double:
  assumes "0 \<le> a" and "0 < b" and "a \<le> b"
  shows "times_n (divide_n (Finite a) (Finite b)) (Finite 100) = Finite (percent64 (a / b))"
proof -
  let ?q = "a / b"
  have q: "0 \<le> ?q" "?q \<le> 1" using assms by simp_all
  have "?q \<le> 2 ^ 60" using q(2) by simp
  with q(1) have d: "round64 ?q = Finite (nearest ?q)" by (rule round64_nonneg)
  have n: "0 \<le> nearest ?q" "nearest ?q \<le> 1"
    using q by (simp_all add: nearest_nonneg nearest_le_1)
  then have "0 \<le> nearest ?q * 100" "nearest ?q * 100 \<le> 2 ^ 60" by simp_all
  then have m: "round64 (nearest ?q * 100) = Finite (nearest (nearest ?q * 100))"
    by (rule round64_nonneg)
  have "divide_n (Finite a) (Finite b) = round64 ?q"
    using assms(2) by simp
  then show ?thesis by (simp add: d m percent64_def)
qed

lemma number_of_int_exact: "0 \<le> k \<Longrightarrow> k < 2 ^ 53 \<Longrightarrow> number_of_int k = Finite (of_int k)"
  unfolding number_of_int_def by (rule round64_of_int)

lemma add_n_exact:
  "0 \<le> a \<Longrightarrow> 0 \<le> b \<Longrightarrow> a + b < 2 ^ 53 \<Longrightarrow>
   add_n (Finite (of_int a)) (Finite (of_int b)) = Finite (of_int (a + b))"
  using round64_of_int [of "a + b"] by simp

subsection \<open>The performance table\<close>

lemma add_n_ints:
  assumes "0 \<le> a" and "0 \<le> b" and "a + b < 2 ^ 53"
  shows "add_n (Finite (of_int a)) (number_of_int b) = Finite (of_int (a + b))"
proof -
  from assms have b: "b < 2 ^ 53" by simp
  have "number_of_int b = Finite (of_int b)"
    unfolding number_of_int_def using assms(2) b by (rule round64_of_int)
  moreover have "round64 (of_int (a + b)) = Finite (of_int (a + b))"
    using assms by (intro round64_of_int) simp_all
  ultimately show ?thesis by simp
qed

lemma record_result_keys:
  "topic r \<notin> set object_prototype_keys \<Longrightarrow>
   map fst (record_result tp r) =
     (if topic r \<in> set (map fst tp) then map fst tp else map fst tp @ [topic r])"
  by (auto simp: record_result_def Let_def map_of_eq_None_iff comp_def case_prod_unfold
      intro!: map_cong)

lemma map_of_bump:
  "map_of (map (\<lambda>(k, c, t). if k = x then (k, f c, g t) else (k, c, t)) tp) y =
     (if y = x then map_option (\<lambda>(c, t). (f c, g t)) (map_of tp y) else map_of tp y)"
  by (induction tp) auto

lemma record_result_value:
  assumes "topic r \<notin> set object_prototype_keys"
  shows "map_of (record_result tp r) y =
     (if y = topic r then
        (case map_of tp y of
           None \<Rightarrow> Some (add_n (Finite 0) (number_of_int (score_r r)),
                         add_n (Finite 0) (number_of_int (total_questions r)))
         | Some (c, t) \<Rightarrow> Some (add_n c (number_of_int (score_r r)),
                               add_n t (number_of_int (total_questions r))))
      else map_of tp y)"
proof (cases "map_of tp (topic r)")
  case None
  then show ?thesis
    using assms by (simp add: record_result_def map_of_bump map_add_def split: option.splits)
next
  case (Some v)
  then show ?thesis
    using assms by (cases v) (simp add: record_result_def map_of_bump)
qed

lemma record_result_keys_extend:
  "\<forall>r\<in>set rs. topic r \<notin> set object_prototype_keys \<Longrightarrow>
   \<exists>zs. map fst (foldl record_result tp rs) = map fst tp @ zs"
proof (induction rs arbitrary: tp)
  case Nil
  show ?case by simp
next
  case (Cons r rs)
  from Cons.prems have r: "topic r \<notin> set object_prototype_keys"
    and rs: "\<forall>r\<in>set rs. topic r \<notin> set object_prototype_keys" by simp_all
  from Cons.IH [OF rs, of "record_result tp r"]
  obtain zs where "map fst (foldl record_result (record_result tp r) rs)
                     = map fst (record_result tp r) @ zs" by blast
  then show ?case
    by (cases "topic r \<in> set (map fst tp)") (simp_all add: record_result_keys [OF r])
qed

lemma performance_keys:
  assumes "\<forall>r\<in>set rs. topic r \<notin> set object_prototype_keys"
  shows "distinct (map fst (foldl record_result [] rs)) \<and>
         set (map fst (foldl record_result [] rs)) = topic ` set rs"
  using assms
proof (induction rs rule: rev_induct)
  case Nil
  show ?case by simp
next
  case (snoc r rs)
  let ?tp = "foldl record_result [] rs"
  from snoc.prems have r: "topic r \<notin> set object_prototype_keys"
    and rs: "\<forall>r\<in>set rs. topic r \<notin> set object_prototype_keys" by simp_all
  from snoc.IH [OF rs] have d: "distinct (map fst ?tp)"
    and k: "set (map fst ?tp) = topic ` set rs" by blast+
  have keys: "map fst (record_result ?tp r) =
                (if topic r \<in> topic ` set rs then map fst ?tp else map fst ?tp @ [topic r])"
    using record_result_keys [OF r, of ?tp] k by simp
  have 1: "distinct (map fst (record_result ?tp r))"
    using d k unfolding keys by auto
  have 2: "set (map fst (record_result ?tp r)) = topic ` set (rs @ [r])"
    using k unfolding keys by auto
  from 1 2 show ?case by simp
qed

lemma topic_sums_snoc:
  "topic_correct (rs @ [r]) t = topic_correct rs t + (if topic r = t then score_r r else 0)"
  "topic_total (rs @ [r]) t = topic_total rs t + (if topic r = t then total_questions r else 0)"
  by (simp_all add: topic_correct_def topic_total_def)

lemma topic_sums_absent:
  "t \<notin> topic ` set rs \<Longrightarrow> topic_correct rs t = 0"
  "t \<notin> topic ` set rs \<Longrightarrow> topic_total rs t = 0"
proof -
  assume "t \<notin> topic ` set rs"
  then have "filter (\<lambda>r. topic r = t) rs = []"
    by (auto simp: filter_empty_conv)
  then show "topic_correct rs t = 0" "topic_total rs t = 0"
    by (simp_all add: topic_correct_def topic_total_def)
qed

lemma topic_correct_le_total:
  "\<forall>r\<in>set rs. score_r r \<le> total_questions r \<Longrightarrow> topic_correct rs t \<le> topic_total rs t"
  by (induction rs) (auto simp: topic_correct_def topic_total_def)

lemma topic_correct_nonneg:
  "\<forall>r\<in>set rs. 0 \<le> score_r r \<Longrightarrow> 0 \<le> topic_correct rs t"
  by (induction rs) (auto simp: topic_correct_def)

lemma topic_total_nonneg:
  "\<forall>r\<in>set rs. 0 < total_questions r \<Longrightarrow> 0 \<le> topic_total rs t"
  by (induction rs) (auto simp: topic_total_def)

lemma topic_total_le_sum:
  "\<forall>r\<in>set rs. 0 < total_questions r \<Longrightarrow> topic_total rs t \<le> sum_list (map total_questions rs)"
  by (induction rs) (auto simp: topic_total_def)

lemma topic_total_pos:
  "\<forall>r\<in>set rs. 0 < total_questions r \<Longrightarrow> t \<in> topic ` set rs \<Longrightarrow> 0 < topic_total rs t"
proof (induction rs)
  case Nil
  then show ?case by simp
next
  case (Cons r rs)
  then have nn: "0 \<le> topic_total rs t" by (simp add: topic_total_nonneg)
  show ?case
  proof (cases "topic r = t")
    case True
    with Cons.prems nn show ?thesis by (simp add: topic_total_def)
  next
    case False
    with Cons show ?thesis by (auto simp: topic_total_def)
  qed
qed

text \<open>
  While the sums stay below \<open>2^53\<close> every \<open>+=\<close> is exact, and the table holds the sums of
  the scores and of the question counts of each topic.
\<close>

lemma performance_values:
  assumes "\<forall>r\<in>set rs. well_formed_row r" and "sum_list (map total_questions rs) < 2 ^ 53"
  shows "map_of (foldl record_result [] rs) t =
           (if t \<in> topic ` set rs
            then Some (Finite (of_int (topic_correct rs t)), Finite (of_int (topic_total rs t)))
            else None)"
  using assms
proof (induction rs arbitrary: t rule: rev_induct)
  case Nil
  show ?case by simp
next
  case (snoc r rs)
  let ?tp = "foldl record_result [] rs"
  from snoc.prems(1) have r: "topic r \<notin> set object_prototype_keys"
    and r0: "0 \<le> score_r r" "0 < total_questions r" "score_r r \<le> total_questions r"
    and rs: "\<forall>r\<in>set rs. well_formed_row r"
    by (simp_all add: well_formed_row_def)
  from rs have pos: "\<forall>r\<in>set rs. 0 < total_questions r" and nn: "\<forall>r\<in>set rs. 0 \<le> score_r r"
    and le: "\<forall>r\<in>set rs. score_r r \<le> total_questions r"
    by (simp_all add: well_formed_row_def)
  from snoc.prems(2) r0 have bound: "sum_list (map total_questions rs) + total_questions r < 2 ^ 53"
    and small: "sum_list (map total_questions rs) < 2 ^ 53" by simp_all
  note v = snoc.IH [OF rs small]
  have t0: "0 \<le> topic_total rs (topic r)" using pos by (rule topic_total_nonneg)
  have c0: "0 \<le> topic_correct rs (topic r)" using nn by (rule topic_correct_nonneg)
  have tb: "topic_total rs (topic r) + total_questions r < 2 ^ 53"
    using topic_total_le_sum [OF pos, of "topic r"] bound by linarith
  have cb: "topic_correct rs (topic r) + score_r r < 2 ^ 53"
    using topic_correct_le_total [OF le, of "topic r"] r0(3) tb by linarith
  have tsum: "add_n (Finite (of_int (topic_total rs (topic r)))) (number_of_int (total_questions r))
                = Finite (of_int (topic_total rs (topic r) + total_questions r))"
    using t0 r0(2) tb by (intro add_n_ints) simp_all
  have csum: "add_n (Finite (of_int (topic_correct rs (topic r)))) (number_of_int (score_r r))
                = Finite (of_int (topic_correct rs (topic r) + score_r r))"
    using c0 r0(1) cb by (intro add_n_ints) simp_all
  have tnew: "add_n (Finite 0) (number_of_int (total_questions r)) = Finite (of_int (total_questions r))"
    using add_n_ints [of 0 "total_questions r"] r0(2) tb t0 by simp
  have cnew: "add_n (Finite 0) (number_of_int (score_r r)) = Finite (of_int (score_r r))"
    using add_n_ints [of 0 "score_r r"] r0(1) cb c0 by simp
  show ?case
  proof (cases "t = topic r")
    case False
    then show ?thesis
      by (auto simp: record_result_value [OF r] v topic_sums_snoc)
  next
    case True
    show ?thesis
    proof (cases "topic r \<in> topic ` set rs")
      case True
      with \<open>t = topic r\<close> show ?thesis
        by (simp add: record_result_value [OF r] v topic_sums_snoc tsum csum)
    next
      case False
      with \<open>t = topic r\<close> show ?thesis
        by (simp add: record_result_value [OF r] v topic_sums_snoc topic_sums_absent tnew cnew)
    qed
  qed
qed

subsection \<open>The scan for the lowest accuracy\<close>

lemma for_in_keys_plain:
  "\<forall>k\<in>set (map fst tp). \<not> is_array_index k \<Longrightarrow> for_in_keys tp = map fst tp"
proof -
  assume a: "\<forall>k\<in>set (map fst tp). \<not> is_array_index k"
  then have "filter is_array_index (map fst tp) = []"
    by (simp add: filter_empty_conv)
  moreover from a have "filter (\<lambda>k. \<not> is_array_index k) (map fst tp) = map fst tp"
    by (simp add: filter_id_conv)
  ultimately show ?thesis
    by (simp add: for_in_keys_def)
qed

lemma worst_scan_step:
  assumes "map_of tp k = Some (c, t)" and "times_n (divide_n c t) (Finite 100) = Finite x"
  shows "worst_scan tp (k # ks) (wo, Finite l) =
           (if x < l then worst_scan tp ks (Some k, Finite x)
            else worst_scan tp ks (wo, Finite l))"
  using assms by simp

lemma worst_scan_finite:
  assumes "\<forall>k\<in>set ks. \<exists>c t. map_of tp k = Some (c, t) \<and>
             times_n (divide_n c t) (Finite 100) = Finite (a k)"
  shows "\<exists>wo' l'. worst_scan tp ks (wo, Finite l) = (wo', Finite l') \<and>
           ((\<forall>k\<in>set ks. l \<le> a k) \<and> wo' = wo \<and> l' = l \<or>
            (\<exists>pre w post. ks = pre @ w # post \<and> wo' = Some w \<and> a w = l' \<and> l' < l \<and>
               (\<forall>k\<in>set pre. l' < a k) \<and> (\<forall>k\<in>set post. l' \<le> a k)))"
  using assms
proof (induction ks arbitrary: wo l)
  case Nil
  show ?case by simp
next
  case (Cons k ks)
  from Cons.prems obtain c t where kv: "map_of tp k = Some (c, t)"
    and ak: "times_n (divide_n c t) (Finite 100) = Finite (a k)" by auto
  from Cons.prems have rest:
    "\<forall>k\<in>set ks. \<exists>c t. map_of tp k = Some (c, t) \<and>
        times_n (divide_n c t) (Finite 100) = Finite (a k)"
    by simp
  have step: "worst_scan tp (k # ks) (wo, Finite l) =
                (if a k < l then worst_scan tp ks (Some k, Finite (a k))
                 else worst_scan tp ks (wo, Finite l))"
    by (rule worst_scan_step [OF kv ak])
  show ?case
  proof (cases "a k < l")
    case True
    from Cons.IH [OF rest, of "Some k" "a k"] obtain wo' l' where
      run: "worst_scan tp ks (Some k, Finite (a k)) = (wo', Finite l')" and
      alt: "(\<forall>k'\<in>set ks. a k \<le> a k') \<and> wo' = Some k \<and> l' = a k \<or>
            (\<exists>pre w post. ks = pre @ w # post \<and> wo' = Some w \<and> a w = l' \<and> l' < a k \<and>
               (\<forall>k\<in>set pre. l' < a k) \<and> (\<forall>k\<in>set post. l' \<le> a k))"
      by blast
    have eq: "worst_scan tp (k # ks) (wo, Finite l) = (wo', Finite l')"
      unfolding step using True run by simp
    from alt show ?thesis
    proof
      assume h: "(\<forall>k'\<in>set ks. a k \<le> a k') \<and> wo' = Some k \<and> l' = a k"
      then have "k # ks = [] @ k # ks \<and> wo' = Some k \<and> a k = l' \<and> l' < l \<and>
               (\<forall>k\<in>set []. l' < a k) \<and> (\<forall>k'\<in>set ks. l' \<le> a k')"
        using True by simp
      with eq show ?thesis by blast
    next
      assume "\<exists>pre w post. ks = pre @ w # post \<and> wo' = Some w \<and> a w = l' \<and> l' < a k \<and>
               (\<forall>k\<in>set pre. l' < a k) \<and> (\<forall>k\<in>set post. l' \<le> a k)"
      then obtain pre w post where h: "ks = pre @ w # post" "wo' = Some w" "a w = l'" "l' < a k"
        "\<forall>k\<in>set pre. l' < a k" "\<forall>k\<in>set post. l' \<le> a k" by blast
      have "k # ks = (k # pre) @ w # post \<and> wo' = Some w \<and> a w = l' \<and> l' < l \<and>
               (\<forall>k'\<in>set (k # pre). l' < a k') \<and> (\<forall>k\<in>set post. l' \<le> a k)"
        using h True by auto
      with eq show ?thesis by blast
    qed
  next
    case False
    from Cons.IH [OF rest, of wo l] obtain wo' l' where
      run: "worst_scan tp ks (wo, Finite l) = (wo', Finite l')" and
      alt: "(\<forall>k'\<in>set ks. l \<le> a k') \<and> wo' = wo \<and> l' = l \<or>
            (\<exists>pre w post. ks = pre @ w # post \<and> wo' = Some w \<and> a w = l' \<and> l' < l \<and>
               (\<forall>k\<in>set pre. l' < a k) \<and> (\<forall>k\<in>set post. l' \<le> a k))"
      by blast
    have eq: "worst_scan tp (k # ks) (wo, Finite l) = (wo', Finite l')"
      unfolding step using False run by simp
    from alt show ?thesis
    proof
      assume "(\<forall>k'\<in>set ks. l \<le> a k') \<and> wo' = wo \<and> l' = l"
      then have "(\<forall>k'\<in>set (k # ks). l \<le> a k') \<and> wo' = wo \<and> l' = l"
        using False by simp
      with eq show ?thesis by blast
    next
      assume "\<exists>pre w post. ks = pre @ w # post \<and> wo' = Some w \<and> a w = l' \<and> l' < l \<and>
               (\<forall>k\<in>set pre. l' < a k) \<and> (\<forall>k\<in>set post. l' \<le> a k)"
      then obtain pre w post where h: "ks = pre @ w # post" "wo' = Some w" "a w = l'" "l' < l"
        "\<forall>k\<in>set pre. l' < a k" "\<forall>k\<in>set post. l' \<le> a k" by blast
      have "k # ks = (k # pre) @ w # post \<and> wo' = Some w \<and> a w = l' \<and> l' < l \<and>
               (\<forall>k'\<in>set (k # pre). l' < a k') \<and> (\<forall>k\<in>set post. l' \<le> a k)"
        using h False by auto
      with eq show ?thesis by blast
    qed
  qed
qed

subsection \<open>Aggregate accuracy\<close>

lemma split_at_unique:
  "w \<notin> set xs \<Longrightarrow> w \<notin> set xs' \<Longrightarrow> xs @ w # ys = xs' @ w # ys' \<Longrightarrow> xs = xs'"
proof (induction xs arbitrary: xs')
  case Nil
  then show ?case by (cases xs') auto
next
  case (Cons x xs)
  then show ?case by (cases xs') auto
qed

lemma distinct_split_unique:
  assumes "distinct (xs @ w # ys)" and "xs @ w # ys = xs' @ w # ys'"
  shows "xs = xs'"
proof -
  from assms have "distinct (xs' @ w # ys')" by simp
  then have b: "w \<notin> set xs'" by simp
  from assms(1) have a: "w \<notin> set xs" by simp
  from a b assms(2) show ?thesis by (rule split_at_unique)
qed

lemma aggregate_accuracy_bounds:
  assumes "\<forall>r\<in>set rs. well_formed_row r" and "t \<in> topic ` set rs"
  shows "0 \<le> aggregate_accuracy rs t" and "aggregate_accuracy rs t \<le> 1"
proof -
  from assms(1) have pos: "\<forall>r\<in>set rs. 0 < total_questions r" and nn: "\<forall>r\<in>set rs. 0 \<le> score_r r"
    and le: "\<forall>r\<in>set rs. score_r r \<le> total_questions r"
    by (simp_all add: well_formed_row_def)
  have t: "0 < topic_total rs t" using pos assms(2) by (rule topic_total_pos)
  have c: "0 \<le> topic_correct rs t" using nn by (rule topic_correct_nonneg)
  have ct: "topic_correct rs t \<le> topic_total rs t" using le by (rule topic_correct_le_total)
  show "0 \<le> aggregate_accuracy rs t" using t c by (simp add: aggregate_accuracy_def)
  show "aggregate_accuracy rs t \<le> 1" using t ct by (simp add: aggregate_accuracy_def)
qed

text \<open>
  The accuracy the loop computes for a topic is the exact quotient rounded to a double,
  multiplied by 100 and rounded again.
\<close>

lemma accuracy_of_topic:
  assumes "\<forall>r\<in>set rs. well_formed_row r" and "t \<in> topic ` set rs"
  shows "times_n (divide_n (Finite (of_int (topic_correct rs t))) (Finite (of_int (topic_total rs t))))
           (Finite 100) = Finite (percent64 (aggregate_accuracy rs t))"
proof -
  from assms(1) have pos: "\<forall>r\<in>set rs. 0 < total_questions r" and nn: "\<forall>r\<in>set rs. 0 \<le> score_r r"
    and le: "\<forall>r\<in>set rs. score_r r \<le> total_questions r"
    by (simp_all add: well_formed_row_def)
  have t: "0 < topic_total rs t" using pos assms(2) by (rule topic_total_pos)
  have c: "0 \<le> topic_correct rs t" using nn by (rule topic_correct_nonneg)
  have ct: "topic_correct rs t \<le> topic_total rs t" using le by (rule topic_correct_le_total)
  show ?thesis
    unfolding aggregate_accuracy_def using c t ct by (intro accuracy_double) simp_all
qed

text \<open>
  While the question counts of a topic sum to at most \<open>2^25\<close>, two different quotients lie
  at least \<open>2^(-50)\<close> apart and the two roundings keep their order.
\<close>

lemma percent64_order:
  assumes rows: "\<forall>r\<in>set rs. well_formed_row r"
    and bound: "sum_list (map total_questions rs) \<le> 2 ^ 25"
    and t1: "t1 \<in> topic ` set rs" and t2: "t2 \<in> topic ` set rs"
  shows "percent64 (aggregate_accuracy rs t1) < percent64 (aggregate_accuracy rs t2)
           \<longleftrightarrow> aggregate_accuracy rs t1 < aggregate_accuracy rs t2"
proof -
  from rows have pos: "\<forall>r\<in>set rs. 0 < total_questions r" by (simp add: well_formed_row_def)
  have strict: "percent64 (aggregate_accuracy rs x) < percent64 (aggregate_accuracy rs y)"
    if x: "x \<in> topic ` set rs" and y: "y \<in> topic ` set rs"
      and lt: "aggregate_accuracy rs x < aggregate_accuracy rs y" for x y
  proof -
    have tx: "0 < topic_total rs x" "topic_total rs x \<le> 2 ^ 25"
      using topic_total_pos [OF pos x] topic_total_le_sum [OF pos, of x] bound by simp_all
    have ty: "0 < topic_total rs y" "topic_total rs y \<le> 2 ^ 25"
      using topic_total_pos [OF pos y] topic_total_le_sum [OF pos, of y] bound by simp_all
    have "aggregate_accuracy rs x + 2 powi (- 50) \<le> aggregate_accuracy rs y"
      unfolding aggregate_accuracy_def
      using tx ty lt [unfolded aggregate_accuracy_def] by (rule quotient_gap)
    then show ?thesis
      using aggregate_accuracy_bounds [OF rows x] aggregate_accuracy_bounds [OF rows y]
      by (intro percent64_strict) simp_all
  qed
  show ?thesis
  proof
    assume l: "percent64 (aggregate_accuracy rs t1) < percent64 (aggregate_accuracy rs t2)"
    show "aggregate_accuracy rs t1 < aggregate_accuracy rs t2"
    proof (rule ccontr)
      assume "\<not> aggregate_accuracy rs t1 < aggregate_accuracy rs t2"
      then have "aggregate_accuracy rs t2 \<le> aggregate_accuracy rs t1" by simp
      with aggregate_accuracy_bounds(1) [OF rows t2]
      have "percent64 (aggregate_accuracy rs t2) \<le> percent64 (aggregate_accuracy rs t1)"
        by (rule percent64_mono)
      with l show False by simp
    qed
  next
    assume "aggregate_accuracy rs t1 < aggregate_accuracy rs t2"
    with t1 t2 show "percent64 (aggregate_accuracy rs t1) < percent64 (aggregate_accuracy rs t2)"
      by (rule strict)
  qed
qed

subsection \<open>The example weeks, evaluated\<close>

lemma kebab_logical: "kebab ''Logical Reasoning'' = ''logical-reasoning''"
  by (simp add: kebab_def ascii_space_def ascii_lower_def)

lemma week_rows_well_formed: "\<forall>r\<in>set week_rows. well_formed_row r"
  by (simp add: week_rows_def well_formed_row_def object_prototype_keys_def is_array_index_def)

lemma week_rows_bound: "sum_list (map total_questions week_rows) \<le> 2 ^ 25"
  by (simp add: week_rows_def)

lemma week_rows_table:
  "foldl record_result [] week_rows =
     [(''Logical Reasoning'', Finite 2, Finite 10), (''Verbal Ability'', Finite 1, Finite 5)]"
proof -
  have n: "number_of_int 0 = Finite 0" "number_of_int 1 = Finite 1" "number_of_int 2 = Finite 2"
    "number_of_int 5 = Finite 5"
    using number_of_int_exact [of 0] number_of_int_exact [of 1] number_of_int_exact [of 2]
      number_of_int_exact [of 5] by simp_all
  have a: "add_n (Finite 0) (Finite 2) = Finite 2" "add_n (Finite 0) (Finite 5) = Finite 5"
    "add_n (Finite 0) (Finite 1) = Finite 1" "add_n (Finite 2) (Finite 0) = Finite 2"
    "add_n (Finite 5) (Finite 5) = Finite 10"
    using add_n_exact [of 0 2] add_n_exact [of 0 5] add_n_exact [of 0 1] add_n_exact [of 2 0]
      add_n_exact [of 5 5] by simp_all
  show ?thesis
    by (simp add: week_rows_def record_result_def object_prototype_keys_def n a del: add_n.simps)
qed

lemma week_rows_suggestion:
  "processSuggestions kebab week_rows None =
     Some \<lparr>name = ''Logical Reasoning'', key = ''logical-reasoning''\<rparr>"
proof -
  have x: "times_n (divide_n (Finite 2) (Finite 10)) (Finite 100) = Finite (percent64 (1 / 5))"
    using accuracy_double [of 2 10] by simp
  have y: "times_n (divide_n (Finite 1) (Finite 5)) (Finite 100) = Finite (percent64 (1 / 5))"
    using accuracy_double [of 1 5] by simp
  have "percent64 (1 / 5) \<le> 100" by (rule percent64_le_100) simp_all
  then have z: "percent64 (1 / 5) < 101" by simp
  have "week_rows \<noteq> []" by (simp add: week_rows_def)
  then show ?thesis
    by (simp add: processSuggestions_def week_rows_table for_in_keys_def is_array_index_def
        x y z kebab_logical del: times_n.simps divide_n.simps)
qed

text \<open>
  Claim C10, as the claim states it, fails: for a non-empty list whose only topic has no
  questions in total, the accuracy is \<open>0 / 0\<close>, which is below nothing, and no topic is
  suggested.
\<close>

theorem processSuggestions_zero_total_counterexample:
  "empty_test_rows \<noteq> [] \<and> processSuggestions kebab empty_test_rows None = None"
  by (simp add: processSuggestions_def empty_test_rows_def record_result_def object_prototype_keys_def
        for_in_keys_def is_array_index_def number_of_int_def round64_def)

lemma percent64_collision:
  "percent64 (2147483645 / 2147483646) = percent64 (2147483646 / 2147483647)"
  by code_simp

lemma close_rows_table:
  "foldl record_result [] close_rows =
     [(''Quantitative Aptitude'', Finite 2147483646, Finite 2147483647),
      (''Verbal Ability'', Finite 2147483645, Finite 2147483646)]"
proof -
  have n: "number_of_int 2147483645 = Finite 2147483645"
    "number_of_int 2147483646 = Finite 2147483646"
    "number_of_int 2147483647 = Finite 2147483647"
    using number_of_int_exact [of 2147483645] number_of_int_exact [of 2147483646]
      number_of_int_exact [of 2147483647] by simp_all
  have a: "add_n (Finite 0) (Finite 2147483645) = Finite 2147483645"
    "add_n (Finite 0) (Finite 2147483646) = Finite 2147483646"
    "add_n (Finite 0) (Finite 2147483647) = Finite 2147483647"
    using add_n_exact [of 0 2147483645] add_n_exact [of 0 2147483646]
      add_n_exact [of 0 2147483647] by simp_all
  show ?thesis
    by (simp add: close_rows_def record_result_def object_prototype_keys_def n a del: add_n.simps)
qed

text \<open>
  Without a bound on the question counts the two roundings can merge two different
  quotients: the second topic of \<open>close_rows\<close> has the lower aggregate accuracy, and the
  first is suggested.
\<close>

lemma close_rows_suggestion:
  "aggregate_accuracy close_rows ''Verbal Ability''
     < aggregate_accuracy close_rows ''Quantitative Aptitude'' \<and>
   processSuggestions kebab close_rows None =
     Some \<lparr>name = ''Quantitative Aptitude'', key = ''quantitative-aptitude''\<rparr>"
proof -
  have x: "times_n (divide_n (Finite 2147483646) (Finite 2147483647)) (Finite 100)
             = Finite (percent64 (2147483646 / 2147483647))"
    by (rule accuracy_double) simp_all
  have y: "times_n (divide_n (Finite 2147483645) (Finite 2147483646)) (Finite 100)
             = Finite (percent64 (2147483646 / 2147483647))"
    unfolding percent64_collision [symmetric] by (rule accuracy_double) simp_all
  have "percent64 (2147483646 / 2147483647) \<le> 100" by (rule percent64_le_100) simp_all
  then have z: "percent64 (2147483646 / 2147483647) < 101" by simp
  have k: "kebab ''Quantitative Aptitude'' = ''quantitative-aptitude''"
    by (simp add: kebab_def ascii_space_def ascii_lower_def)
  have ne: "close_rows \<noteq> []" by (simp add: close_rows_def)
  have acc: "aggregate_accuracy close_rows ''Verbal Ability''
     < aggregate_accuracy close_rows ''Quantitative Aptitude''"
    by (simp add: aggregate_accuracy_def topic_correct_def topic_total_def close_rows_def)
  have "processSuggestions kebab close_rows None =
     Some \<lparr>name = ''Quantitative Aptitude'', key = ''quantitative-aptitude''\<rparr>"
    using ne
    by (simp add: processSuggestions_def close_rows_table for_in_keys_def is_array_index_def
        x y z k del: times_n.simps divide_n.simps)
  with acc show ?thesis by simp
qed

text \<open>
  Claim C10, amended. For every non-empty list of well-formed rows whose question counts sum
  to at most \<open>2^25\<close>, \<open>processSuggestions\<close> sets the suggestion to the topic of some row
  \<open>r\<close> of the list. The aggregate accuracy of that topic is at most that of the topic of
  every row, and strictly below that of the topic of every row before \<open>r\<close>: among the
  topics of minimal accuracy it is the one met first.
\<close>

theorem processSuggestions_worst_topic:
  assumes ne: "results \<noteq> []" and rows: "\<forall>r\<in>set results. well_formed_row r"
    and bound: "sum_list (map total_questions results) \<le> 2 ^ 25"
  shows "\<exists>pre r post. results = pre @ r # post \<and>
           processSuggestions slug results suggestedTopic =
             Some \<lparr>name = topic r, key = slug (topic r)\<rparr> \<and>
           (\<forall>r'\<in>set results.
              aggregate_accuracy results (topic r) \<le> aggregate_accuracy results (topic r')) \<and>
           (\<forall>r'\<in>set pre.
              aggregate_accuracy results (topic r) < aggregate_accuracy results (topic r'))"
proof -
  let ?tp = "foldl record_result [] results"
  let ?a = "\<lambda>k. percent64 (aggregate_accuracy results k)"
  from rows have good: "\<forall>r\<in>set results. topic r \<notin> set object_prototype_keys"
    by (simp add: well_formed_row_def)
  from bound have "sum_list (map total_questions results) \<le> 2 ^ 53"
    by (rule order_trans) simp
  moreover have "sum_list (map total_questions results) \<noteq> 2 ^ 53"
    using bound by auto
  ultimately have small: "sum_list (map total_questions results) < 2 ^ 53" by simp
  from performance_keys [OF good]
  have d: "distinct (map fst ?tp)" and k: "set (map fst ?tp) = topic ` set results"
    by blast+
  note v = performance_values [OF rows small]
  have "\<forall>k\<in>set (map fst ?tp). \<not> is_array_index k"
    using rows unfolding k by (auto simp: well_formed_row_def)
  then have keys: "for_in_keys ?tp = map fst ?tp" by (rule for_in_keys_plain)
  have fin: "\<forall>k\<in>set (map fst ?tp). \<exists>c t. map_of ?tp k = Some (c, t) \<and>
               times_n (divide_n c t) (Finite 100) = Finite (?a k)"
  proof
    fix t assume "t \<in> set (map fst ?tp)"
    then have t: "t \<in> topic ` set results" using k by simp
    from accuracy_of_topic [OF rows t] t
    show "\<exists>c ta. map_of ?tp t = Some (c, ta) \<and>
            times_n (divide_n c ta) (Finite 100) = Finite (?a t)"
      by (simp add: v)
  qed
  have le100: "?a t \<le> 100" if "t \<in> set (map fst ?tp)" for t
  proof -
    from that have t: "t \<in> topic ` set results" using k by simp
    show ?thesis
      using aggregate_accuracy_bounds [OF rows t] by (rule percent64_le_100)
  qed
  from worst_scan_finite [OF fin, of None 101] obtain wo' l' where
    run: "worst_scan ?tp (map fst ?tp) (None, Finite 101) = (wo', Finite l')" and
    alt: "(\<forall>k\<in>set (map fst ?tp). 101 \<le> ?a k) \<and> wo' = None \<and> l' = 101 \<or>
          (\<exists>pre w post. map fst ?tp = pre @ w # post \<and> wo' = Some w \<and> ?a w = l' \<and> l' < 101 \<and>
             (\<forall>k\<in>set pre. l' < ?a k) \<and> (\<forall>k\<in>set post. l' \<le> ?a k))"
    by blast
  from ne obtain r0 where "r0 \<in> set results" by (cases results) auto
  then have "topic r0 \<in> set (map fst ?tp)" using k by simp
  then have "\<not> (\<forall>k\<in>set (map fst ?tp). 101 \<le> ?a k)"
    using le100 [of "topic r0"] by force
  with alt obtain kpre w kpost where
    split: "map fst ?tp = kpre @ w # kpost" and wo: "wo' = Some w" and
    before: "\<forall>k\<in>set kpre. ?a w < ?a k" and after: "\<forall>k\<in>set kpost. ?a w \<le> ?a k"
    by blast
  have "w \<in> set (map fst ?tp)" unfolding split by simp
  then have w_in: "w \<in> topic ` set results" using k by simp
  then have "\<exists>r\<in>set results. topic r = w" by auto
  then obtain pre r post where res: "results = pre @ r # post" and tr: "topic r = w"
    and first: "\<forall>r'\<in>set pre. topic r' \<noteq> w"
    using split_list_first_prop [of results "\<lambda>r. topic r = w"] by blast
  from w_in rows have "w \<noteq> []" by (auto simp: well_formed_row_def)
  then have out: "processSuggestions slug results suggestedTopic = Some \<lparr>name = w, key = slug w\<rparr>"
    using ne run wo by (simp add: processSuggestions_def keys)
  have lower: "aggregate_accuracy results w < aggregate_accuracy results t"
    if "t \<in> topic ` set results" and "?a w < ?a t" for t
    using percent64_order [OF rows bound w_in that(1)] that(2) by simp
  have lower_eq: "aggregate_accuracy results w \<le> aggregate_accuracy results t"
    if "t \<in> topic ` set results" and "?a w \<le> ?a t" for t
    using percent64_order [OF rows bound that(1) w_in] that(2) by auto
  have min: "aggregate_accuracy results w \<le> aggregate_accuracy results (topic r')"
    if "r' \<in> set results" for r'
  proof -
    from that have t: "topic r' \<in> topic ` set results" by simp
    then have "topic r' \<in> set (kpre @ w # kpost)" using k split by auto
    then have "?a w \<le> ?a (topic r')" using before after by auto
    with t show ?thesis by (rule lower_eq)
  qed
  have goodpre: "\<forall>r\<in>set pre. topic r \<notin> set object_prototype_keys"
    and goodpost: "\<forall>r\<in>set post. topic r \<notin> set object_prototype_keys"
    and goodr: "topic r \<notin> set object_prototype_keys"
    using good res by simp_all
  let ?tpre = "foldl record_result [] pre"
  from performance_keys [OF goodpre] have kp: "set (map fst ?tpre) = topic ` set pre" by blast
  then have "topic r \<notin> set (map fst ?tpre)" using first tr by auto
  then have k1: "map fst (record_result ?tpre r) = map fst ?tpre @ [w]"
    using record_result_keys [OF goodr, of ?tpre] tr by simp
  from record_result_keys_extend [OF goodpost, of "record_result ?tpre r"]
  obtain zs where zs: "map fst ?tp = map fst ?tpre @ w # zs"
    unfolding res using k1 by auto
  have e: "kpre @ w # kpost = map fst ?tpre @ w # zs"
    unfolding split [symmetric] by (rule zs)
  have "distinct (kpre @ w # kpost)"
    unfolding split [symmetric] by (rule d)
  from this e have "kpre = map fst ?tpre"
    by (rule distinct_split_unique)
  with kp have kpre: "set kpre = topic ` set pre" by simp
  have tie: "aggregate_accuracy results w < aggregate_accuracy results (topic r')"
    if "r' \<in> set pre" for r'
  proof -
    from that have "topic r' \<in> set kpre" unfolding kpre by simp
    with before have "?a w < ?a (topic r')" by simp
    moreover from that have "topic r' \<in> topic ` set results" unfolding res by simp
    ultimately show ?thesis by (intro lower)
  qed
  from res out min tie show ?thesis
    unfolding tr [symmetric] by blast
qed

theorem processSuggestions_worst_topic_witness:
  "week_rows \<noteq> [] \<and> list_all well_formed_row week_rows \<and>
   sum_list (map total_questions week_rows) \<le> 2 ^ 25 \<and>
   (\<exists>pre r post. week_rows = pre @ r # post \<and>
      processSuggestions kebab week_rows None = Some \<lparr>name = topic r, key = kebab (topic r)\<rparr>) \<and>
   processSuggestions kebab week_rows None =
     Some \<lparr>name = ''Logical Reasoning'', key = ''logical-reasoning''\<rparr>"
proof -
  have h1: "week_rows \<noteq> []" by (simp add: week_rows_def)
  have h2: "list_all well_formed_row week_rows"
    using week_rows_well_formed by (simp add: list_all_iff)
  have "\<exists>pre r post. week_rows = pre @ r # post \<and>
      processSuggestions kebab week_rows None = Some \<lparr>name = topic r, key = kebab (topic r)\<rparr>"
    using processSuggestions_worst_topic [OF h1 week_rows_well_formed week_rows_bound, of kebab None]
    by blast
  with h1 h2 week_rows_bound week_rows_suggestion show ?thesis by blast
qed

end
